theory Spec2Isabelle
  imports Complex_Main
begin

section \<open>Duration parsing of \<^verbatim>\<open>drip/timedelta.py\<close>\<close>

text \<open>
  The module has one function, \<^verbatim>\<open>parse(string)\<close>. It rejects the empty string, tries
  a regular expression for the format that databases and serialisers emit, falls back to a
  more flexible regular expression, and passes the captured groups, converted with
  \<^verbatim>\<open>float\<close>, to \<^verbatim>\<open>datetime.timedelta\<close>.

  The embedding has four layers, in the order of the source: the regular expressions
  (a datatype for the fragment of Python's \<^verbatim>\<open>re\<close> syntax that the two patterns use, and a
  backtracking matcher that tries the ways of matching in Python's order), the dictionary of groups, \<^verbatim>\<open>float\<close>, and the \<^verbatim>\<open>timedelta\<close> constructor.

  Characters are the 8-bit characters of \<^typ>\<open>string\<close>. The classes \<^verbatim>\<open>\d\<close> and \<^verbatim>\<open>\W\<close>
  are the ASCII ones, which is what Python 2 uses for a pattern without the UNICODE flag
  and what Python 3 computes on ASCII text.
\<close>

subsection \<open>Regular expressions\<close>

text \<open>The names of the named groups of the two patterns.\<close>

datatype gname = Weeks | Days | Sign | Hours | Minutes | Seconds

text \<open>
  Character classes: a literal character, \<^verbatim>\<open>\d\<close>, \<^verbatim>\<open>\W\<close> and a bracket set such as
  \<^verbatim>\<open>[-+]\<close>.
\<close>

datatype cls = Lit char | Digit | NonWord | OneOf string

definition is_digit :: "char \<Rightarrow> bool" where
  "is_digit c = (let n = (of_char c :: nat) in 48 \<le> n \<and> n \<le> 57)"

definition is_word :: "char \<Rightarrow> bool" where
  "is_word c = (let n = (of_char c :: nat) in
     (48 \<le> n \<and> n \<le> 57) \<or> (65 \<le> n \<and> n \<le> 90) \<or> n = 95 \<or> (97 \<le> n \<and> n \<le> 122))"

fun in_cls :: "cls \<Rightarrow> char \<Rightarrow> bool" where
  "in_cls (Lit a) c = (c = a)"
| "in_cls Digit c = is_digit c"
| "in_cls NonWord c = (\<not> is_word c)"
| "in_cls (OneOf as) c = (c \<in> set as)"

text \<open>
  The fragment of the pattern syntax in use. \<open>Bol\<close> is \<^verbatim>\<open>^\<close>, \<open>Eol\<close> is \<^verbatim>\<open>$\<close>,
  \<open>Star\<close> is the greedy \<^verbatim>\<open>*\<close> (the patterns repeat single characters only),
  \<open>Opt\<close> is the greedy \<^verbatim>\<open>?\<close>, \<open>Alt\<close> is \<^verbatim>\<open>|\<close> and \<open>Group\<close> is a named group
  \<^verbatim>\<open>(?P<name>...)\<close>. The unnamed parentheses of the patterns only group: the source reads
  the match through \<^verbatim>\<open>groupdict\<close>, which returns the named groups.
\<close>

datatype regex =
    Bol
  | Eol
  | Atom cls
  | Star cls
  | Seq regex regex
  | Alt regex regex
  | Opt regex
  | Group gname regex

text \<open>\<^verbatim>\<open>x+\<close> is one \<open>x\<close> and then \<^verbatim>\<open>x*\<close>.\<close>

definition Plus :: "cls \<Rightarrow> regex" where
  "Plus c = Seq (Atom c) (Star c)"

fun seqs :: "regex list \<Rightarrow> regex" where
  "seqs [] = Opt (Atom (OneOf []))"
| "seqs [r] = r"
| "seqs (r # rs) = Seq r (seqs rs)"

definition Str :: "string \<Rightarrow> regex" where
  "Str s = seqs (map (\<lambda>c. Atom (Lit c)) s)"

text \<open>
  The state of a match attempt: the position in the input, the input from that position on,
  and the text captured by each named group so far.
\<close>

record mstate =
  pos :: nat
  rest :: string
  grp :: "gname \<Rightarrow> string option"

text \<open>
  The matcher backtracks, as Python's does. \<open>rmatch r k st\<close> matches \<open>r\<close> from the
  state \<open>st\<close> and hands each state in which the match of \<open>r\<close> can end to the
  continuation \<open>k\<close>, which matches what follows \<open>r\<close> in the pattern; the first end state
  that \<open>k\<close> accepts decides the result, and \<open>None\<close> means that every way of matching
  has failed. The order of the attempts is Python's: the first alternative before the
  second, the optional part present before absent, the longer repetition before the
  shorter. A group records the text between the positions at which it was entered and left;
  an attempt that is abandoned takes its captures with it. \<^verbatim>\<open>$\<close> holds at the end of
  the input and before a line feed that ends the input.
\<close>

fun star_k :: "cls \<Rightarrow> (nat \<Rightarrow> string \<Rightarrow> mstate option) \<Rightarrow> nat \<Rightarrow> string \<Rightarrow> mstate option" where
  "star_k c k p [] = k p []"
| "star_k c k p (x # xs) =
     (if in_cls c x
      then (case star_k c k (Suc p) xs of Some res \<Rightarrow> Some res | None \<Rightarrow> k p (x # xs))
      else k p (x # xs))"

primrec rmatch :: "regex \<Rightarrow> (mstate \<Rightarrow> mstate option) \<Rightarrow> mstate \<Rightarrow> mstate option" where
  "rmatch Bol k st = (if pos st = 0 then k st else None)"
| "rmatch Eol k st = (if rest st = [] \<or> rest st = [CHR 0x0A] then k st else None)"
| "rmatch (Atom c) k st =
     (case rest st of
        [] \<Rightarrow> None
      | x # xs \<Rightarrow> if in_cls c x then k (st\<lparr>pos := Suc (pos st), rest := xs\<rparr>) else None)"
| "rmatch (Star c) k st = star_k c (\<lambda>p r. k (st\<lparr>pos := p, rest := r\<rparr>)) (pos st) (rest st)"
| "rmatch (Seq r1 r2) k st = rmatch r1 (rmatch r2 k) st"
| "rmatch (Alt r1 r2) k st =
     (case rmatch r1 k st of Some res \<Rightarrow> Some res | None \<Rightarrow> rmatch r2 k st)"
| "rmatch (Opt r) k st = (case rmatch r k st of Some res \<Rightarrow> Some res | None \<Rightarrow> k st)"
| "rmatch (Group n r) k st =
     rmatch r (\<lambda>st'. k (st'\<lparr>grp := (grp st')(n \<mapsto> take (pos st' - pos st) (rest st))\<rparr>)) st"

text \<open>
  \<^verbatim>\<open>re.match(pattern, string)\<close>: the first match from position 0, or \<^verbatim>\<open>None\<close>. The
  result is the captures of the named groups.
\<close>

definition re_match :: "regex \<Rightarrow> string \<Rightarrow> (gname \<Rightarrow> string option) option" where
  "re_match r s = map_option grp (rmatch r Some \<lparr>pos = 0, rest = s, grp = (\<lambda>_. None)\<rparr>)"

fun names_of :: "regex \<Rightarrow> gname list" where
  "names_of (Seq r1 r2) = names_of r1 @ names_of r2"
| "names_of (Alt r1 r2) = names_of r1 @ names_of r2"
| "names_of (Opt r) = names_of r"
| "names_of (Group n r) = n # names_of r"
| "names_of _ = []"

subsection \<open>The two patterns\<close>

text \<open>
  The format of Postgres, sqlite and serialisation:
  \<^verbatim>\<open>^((?P<days>[-+]?\d+) days?,? )?(?P<sign>[-+]?)(?P<hours>\d+):(?P<minutes>\d+)(:(?P<seconds>\d+(\.\d+)?))?$\<close>
\<close>

definition db_pattern :: regex where
  "db_pattern = seqs
     [Bol,
      Opt (seqs [Group Days (Seq (Opt (Atom (OneOf ''-+''))) (Plus Digit)),
                 Str '' day'', Opt (Atom (Lit CHR ''s'')), Opt (Atom (Lit CHR '','')),
                 Atom (Lit CHR '' '')]),
      Group Sign (Opt (Atom (OneOf ''-+''))),
      Group Hours (Plus Digit),
      Atom (Lit CHR '':''),
      Group Minutes (Plus Digit),
      Opt (Seq (Atom (Lit CHR '':''))
               (Group Seconds (Seq (Plus Digit) (Opt (Seq (Atom (Lit CHR ''.'')) (Plus Digit)))))),
      Eol]"

text \<open>
  The flexible format. Each of its five components starts with the number
  \<^verbatim>\<open>-?((\d*\.\d+)|\d+)\<close>:
\<close>

definition number :: regex where
  "number = Seq (Opt (Atom (Lit CHR ''-'')))
                (Alt (seqs [Star Digit, Atom (Lit CHR ''.''), Plus Digit]) (Plus Digit))"

text \<open>
  \<^verbatim>\<open>^((?P<weeks>-?((\d*\.\d+)|\d+))\W*w((ee)?(k(s)?)?)(,)?\W*)?\<close>
  \<^verbatim>\<open>((?P<days>-?((\d*\.\d+)|\d+))\W*d(ay(s)?)?(,)?\W*)?\<close>
  \<^verbatim>\<open>((?P<hours>-?((\d*\.\d+)|\d+))\W*h(ou)?(r(s)?)?(,)?\W*)?\<close>
  \<^verbatim>\<open>((?P<minutes>-?((\d*\.\d+)|\d+))\W*m(in(ute)?(s)?)?(,)?\W*)?\<close>
  \<^verbatim>\<open>((?P<seconds>-?((\d*\.\d+)|\d+))\W*s(ec(ond)?(s)?)?)?\W*$\<close>
\<close>

definition flex_pattern :: regex where
  "flex_pattern = seqs
     [Bol,
      Opt (seqs [Group Weeks number, Star NonWord, Atom (Lit CHR ''w''),
                 Opt (Str ''ee''), Opt (Seq (Atom (Lit CHR ''k'')) (Opt (Atom (Lit CHR ''s'')))),
                 Opt (Atom (Lit CHR '','')), Star NonWord]),
      Opt (seqs [Group Days number, Star NonWord, Atom (Lit CHR ''d''),
                 Opt (Seq (Str ''ay'') (Opt (Atom (Lit CHR ''s'')))),
                 Opt (Atom (Lit CHR '','')), Star NonWord]),
      Opt (seqs [Group Hours number, Star NonWord, Atom (Lit CHR ''h''),
                 Opt (Str ''ou''), Opt (Seq (Atom (Lit CHR ''r'')) (Opt (Atom (Lit CHR ''s'')))),
                 Opt (Atom (Lit CHR '','')), Star NonWord]),
      Opt (seqs [Group Minutes number, Star NonWord, Atom (Lit CHR ''m''),
                 Opt (seqs [Str ''in'', Opt (Str ''ute''), Opt (Atom (Lit CHR ''s''))]),
                 Opt (Atom (Lit CHR '','')), Star NonWord]),
      Opt (seqs [Group Seconds number, Star NonWord, Atom (Lit CHR ''s''),
                 Opt (seqs [Str ''ec'', Opt (Str ''ond''), Opt (Atom (Lit CHR ''s''))])]),
      Star NonWord,
      Eol]"

subsection \<open>Python values, errors and \<^verbatim>\<open>float\<close>\<close>

text \<open>
  \<^verbatim>\<open>groupdict(0)\<close> maps a group that took part in the match to its text and any other
  group to the integer 0, so the values of the dictionary are strings or integers.
\<close>

datatype pyval = PStr string | PInt int

text \<open>
  The exceptions that the statements of \<^verbatim>\<open>parse\<close> can raise. \<open>InvalidFormat s\<close> is the
  \<^verbatim>\<open>TypeError("'%s' is not a valid time interval" % string)\<close> of the source, with the
  string it was built from. \<open>ConcatTypeError\<close> is the \<^verbatim>\<open>TypeError\<close> that Python raises
  for \<^verbatim>\<open>'-' + 0\<close>, \<open>KeyError\<close> the one of \<^verbatim>\<open>d[k]\<close>, \<open>ValueError\<close> the one of
  \<^verbatim>\<open>float\<close>, \<open>UnexpectedKeyword\<close> and \<open>OverflowError\<close> those of
  \<^verbatim>\<open>datetime.timedelta\<close>.
\<close>

datatype error =
    InvalidFormat string
  | ConcatTypeError
  | KeyError
  | ValueError
  | UnexpectedKeyword
  | OverflowError

definition digit_val :: "char \<Rightarrow> int" where
  "digit_val c = of_char c - 48"

definition digits_val :: "string \<Rightarrow> int" where
  "digits_val ds = foldl (\<lambda>a c. 10 * a + digit_val c) 0 ds"

text \<open>
  \<^verbatim>\<open>float\<close> on a string, for decimal literals: an optional sign, digits, and an optional
  point followed by digits, with a digit on at least one side of the point. These are
  the texts that the groups of the two patterns can capture; Python's \<^verbatim>\<open>float\<close> accepts
  more (exponents, surrounding blanks, \<^verbatim>\<open>inf\<close>, \<^verbatim>\<open>nan\<close>), which is not modelled and
  reported as \<open>ValueError\<close> here. The value is the exact rational number that the literal
  denotes: the rounding of IEEE doubles is not modelled.
\<close>

definition unsigned_lit :: "string \<Rightarrow> rat option" where
  "unsigned_lit t =
     (let ip = takeWhile is_digit t in
      case dropWhile is_digit t of
        [] \<Rightarrow> if ip = [] then None else Some (of_int (digits_val ip))
      | c # fp \<Rightarrow>
          if c = CHR ''.'' \<and> list_all is_digit fp \<and> (ip \<noteq> [] \<or> fp \<noteq> [])
          then Some (of_int (digits_val ip) + of_int (digits_val fp) / 10 ^ length fp)
          else None)"

fun float_lit :: "string \<Rightarrow> rat option" where
  "float_lit [] = None"
| "float_lit (c # t) =
     (if c = CHR ''-'' then map_option uminus (unsigned_lit t)
      else if c = CHR ''+'' then unsigned_lit t
      else unsigned_lit (c # t))"

fun py_float :: "pyval \<Rightarrow> error + rat" where
  "py_float (PInt n) = Inr (of_int n)"
| "py_float (PStr s) = (case float_lit s of None \<Rightarrow> Inl ValueError | Some x \<Rightarrow> Inr x)"

subsection \<open>\<^verbatim>\<open>datetime.timedelta\<close>\<close>

text \<open>
  A \<^verbatim>\<open>timedelta\<close> is normalised: \<open>0 \<le> seconds < 86400\<close>, \<open>0 \<le> microseconds < 1000000\<close>,
  and the sign is carried by \<open>days\<close>, whose magnitude is at most 999999999.
\<close>

record timedelta =
  days :: int
  seconds :: int
  microseconds :: int

definition total_seconds :: "timedelta \<Rightarrow> rat" where
  "total_seconds td =
     of_int (days td * 86400 + seconds td) + of_int (microseconds td) / 1000000"

text \<open>Python's \<^verbatim>\<open>round\<close>: to the nearest integer, a tie to the even one.\<close>

definition py_round :: "rat \<Rightarrow> int" where
  "py_round x =
     (let f = \<lfloor>x\<rfloor>; r = x - of_int f in
      if r < 1 / 2 then f else if 1 / 2 < r then f + 1 else if even f then f else f + 1)"

text \<open>
  The constructor, called with keyword arguments. A keyword that is not given is 0; the
  keyword \<^verbatim>\<open>sign\<close> is not one of the constructor's. The arguments are weighted (a week is 7
  days, a day 86400 seconds, an hour 3600, a minute 60), summed, rounded to microseconds and
  normalised; a number of days beyond 999999999 in magnitude raises \<^verbatim>\<open>OverflowError\<close>.
  The sum is exact here, where Python adds doubles.
\<close>

definition kw :: "(gname \<rightharpoonup> rat) \<Rightarrow> gname \<Rightarrow> rat" where
  "kw a k = (case a k of None \<Rightarrow> 0 | Some x \<Rightarrow> x)"

text \<open>The seconds in one unit of each keyword of the constructor that \<^verbatim>\<open>parse\<close> uses.\<close>

fun weight :: "gname \<Rightarrow> rat" where
  "weight Weeks = 604800"
| "weight Days = 86400"
| "weight Hours = 3600"
| "weight Minutes = 60"
| "weight Seconds = 1"
| "weight Sign = 0"

definition weighted_seconds :: "(gname \<rightharpoonup> rat) \<Rightarrow> rat" where
  "weighted_seconds a =
     kw a Weeks * weight Weeks + kw a Days * weight Days + kw a Hours * weight Hours
       + kw a Minutes * weight Minutes + kw a Seconds * weight Seconds"

definition timedelta_new :: "(gname \<rightharpoonup> rat) \<Rightarrow> error + timedelta" where
  "timedelta_new a =
     (if a Sign \<noteq> None then Inl UnexpectedKeyword
      else
        let us = py_round (weighted_seconds a * 1000000);
            d = us div 86400000000
        in if \<bar>d\<bar> > 999999999 then Inl OverflowError
           else Inr \<lparr>days = d,
                     seconds = (us mod 86400000000) div 1000000,
                     microseconds = us mod 1000000\<rparr>)"

subsection \<open>\<^verbatim>\<open>parse\<close>\<close>

text \<open>\<^verbatim>\<open>m.groupdict(default)\<close>: one entry for each named group of the pattern.\<close>

definition groupdict :: "regex \<Rightarrow> pyval \<Rightarrow> (gname \<Rightarrow> string option) \<Rightarrow> (gname \<rightharpoonup> pyval)" where
  "groupdict r dflt m =
     (\<lambda>k. if k \<in> set (names_of r)
          then Some (case m k of None \<Rightarrow> dflt | Some w \<Rightarrow> PStr w)
          else None)"

text \<open>\<^verbatim>\<open>a + v\<close> for a string \<open>a\<close>.\<close>

fun str_add :: "string \<Rightarrow> pyval \<Rightarrow> error + pyval" where
  "str_add a (PStr b) = Inr (PStr (a @ b))"
| "str_add a (PInt n) = Inl ConcatTypeError"

text \<open>The loop \<^verbatim>\<open>for k in 'hours', 'minutes', 'seconds': d[k] = '-' + d[k]\<close>.\<close>

fun negate_keys :: "gname list \<Rightarrow> (gname \<rightharpoonup> pyval) \<Rightarrow> error + (gname \<rightharpoonup> pyval)" where
  "negate_keys [] d = Inr d"
| "negate_keys (k # ks) d =
     (case d k of
        None \<Rightarrow> Inl KeyError
      | Some v \<Rightarrow>
          (case str_add ''-'' v of
             Inl e \<Rightarrow> Inl e
           | Inr v' \<Rightarrow> negate_keys ks (d(k \<mapsto> v'))))"

text \<open>
  \<^verbatim>\<open>dict((k, float(v)) for k, v in d.items())\<close>, over the keys a dictionary of groups can
  have.
\<close>

fun float_items :: "gname list \<Rightarrow> (gname \<rightharpoonup> pyval) \<Rightarrow> error + (gname \<rightharpoonup> rat)" where
  "float_items [] d = Inr Map.empty"
| "float_items (k # ks) d =
     (case d k of
        None \<Rightarrow> float_items ks d
      | Some v \<Rightarrow>
          (case py_float v of
             Inl e \<Rightarrow> Inl e
           | Inr x \<Rightarrow>
               (case float_items ks d of
                  Inl e \<Rightarrow> Inl e
                | Inr a \<Rightarrow> Inr (a(k \<mapsto> x)))))"

definition to_timedelta :: "(gname \<rightharpoonup> pyval) \<Rightarrow> error + timedelta" where
  "to_timedelta d =
     (case float_items [Weeks, Days, Sign, Hours, Minutes, Seconds] d of
        Inl e \<Rightarrow> Inl e
      | Inr a \<Rightarrow> timedelta_new a)"

text \<open>
  The function itself, with \<^verbatim>\<open>re.match\<close> as a parameter \<open>mt\<close>, so that a statement can
  say what does not depend on matching. The branches are those of the source: the empty
  string; a match of the first pattern, with the sign distributed over hours, minutes and
  seconds and then removed from the dictionary; a match of the second pattern; no match.
\<close>

definition parse_with ::
  "(regex \<Rightarrow> string \<Rightarrow> (gname \<Rightarrow> string option) option) \<Rightarrow> string \<Rightarrow> error + timedelta" where
  "parse_with mt string =
     (if string = [] then Inl (InvalidFormat string)
      else
        case mt db_pattern string of
          Some m \<Rightarrow>
            (let d = groupdict db_pattern (PInt 0) m in
             case d Sign of
               None \<Rightarrow> Inl KeyError
             | Some sg \<Rightarrow>
                 (case (if sg = PStr ''-'' then negate_keys [Hours, Minutes, Seconds] d
                        else Inr d) of
                    Inl e \<Rightarrow> Inl e
                  | Inr d' \<Rightarrow> to_timedelta (d'(Sign := None))))
        | None \<Rightarrow>
            (case mt flex_pattern string of
               None \<Rightarrow> Inl (InvalidFormat string)
             | Some m \<Rightarrow> to_timedelta (groupdict flex_pattern (PInt 0) m)))"

definition parse :: "string \<Rightarrow> error + timedelta" where
  "parse string = parse_with re_match string"

subsection \<open>Observations on the result\<close>

text \<open>The total of a successful parse in seconds, \<^verbatim>\<open>parse(s).total_seconds()\<close>.\<close>

definition result_seconds :: "error + timedelta \<Rightarrow> rat option" where
  "result_seconds r = (case r of Inl e \<Rightarrow> None | Inr td \<Rightarrow> Some (total_seconds td))"

text \<open>
  The keyword arguments that \<^verbatim>\<open>parse\<close> passes to the constructor when the flexible pattern
  matches, and the seconds that one of them contributes to the sum.
\<close>

definition flex_kwargs :: "string \<Rightarrow> (gname \<rightharpoonup> rat) option" where
  "flex_kwargs s =
     (case re_match flex_pattern s of
        None \<Rightarrow> None
      | Some m \<Rightarrow>
          (case float_items [Weeks, Days, Sign, Hours, Minutes, Seconds]
                  (groupdict flex_pattern (PInt 0) m) of
             Inl e \<Rightarrow> None
           | Inr a \<Rightarrow> Some a))"


text \<open>The texts captured by the named groups, in a fixed order, for display.\<close>

definition captures :: "regex \<Rightarrow> string \<Rightarrow> string option list option" where
  "captures r s =
     map_option (\<lambda>m. map m [Weeks, Days, Sign, Hours, Minutes, Seconds]) (re_match r s)"

subsection \<open>Notions for the proofs\<close>

text \<open>
  The words that a pattern can consume, \<open>lang\<close>, and the words that the group \<open>k\<close> of a
  pattern can capture, \<open>glang\<close>. Both ignore the order of the attempts. \<open>must r\<close> are the
  groups that take part in every match of \<open>r\<close>.
\<close>

fun lang :: "regex \<Rightarrow> string set" where
  "lang Bol = {[]}"
| "lang Eol = {[]}"
| "lang (Atom c) = {[x] |x. in_cls c x}"
| "lang (Star c) = {w. list_all (in_cls c) w}"
| "lang (Seq a b) = {u @ v |u v. u \<in> lang a \<and> v \<in> lang b}"
| "lang (Alt a b) = lang a \<union> lang b"
| "lang (Opt r) = insert [] (lang r)"
| "lang (Group n r) = lang r"

fun glang :: "regex \<Rightarrow> gname \<Rightarrow> string set" where
  "glang (Seq a b) k = glang a k \<union> glang b k"
| "glang (Alt a b) k = glang a k \<union> glang b k"
| "glang (Opt r) k = glang r k"
| "glang (Group n r) k = (if k = n then lang r else {}) \<union> glang r k"
| "glang _ k = {}"

fun must :: "regex \<Rightarrow> gname set" where
  "must (Seq a b) = must a \<union> must b"
| "must (Alt a b) = must a \<inter> must b"
| "must (Group n r) = insert n (must r)"
| "must _ = {}"

text \<open>
  \<open>reach r st st'\<close>: a match of \<open>r\<close> can lead from \<open>st\<close> to \<open>st'\<close>. It consumes a word
  of \<open>lang r\<close>, leaves a group as it was or sets it to a word the group can capture, and
  sets the groups of \<open>must r\<close>.
\<close>

definition reach :: "regex \<Rightarrow> mstate \<Rightarrow> mstate \<Rightarrow> bool" where
  "reach r st st' \<longleftrightarrow>
     (\<exists>w. rest st = w @ rest st' \<and> pos st' = pos st + length w \<and> w \<in> lang r)
     \<and> (\<forall>n. grp st' n = grp st n \<or> (\<exists>u. grp st' n = Some u \<and> u \<in> glang r n))
     \<and> (\<forall>n\<in>must r. grp st' n \<noteq> None)"

text \<open>A decimal literal without a sign, as \<open>unsigned_lit\<close> reads it.\<close>

definition udecimal :: "string \<Rightarrow> bool" where
  "udecimal u \<longleftrightarrow> u \<noteq> [] \<and> hd u \<noteq> CHR ''-'' \<and> hd u \<noteq> CHR ''+'' \<and> unsigned_lit u \<noteq> None"

text \<open>
  A continuation rejects a class when it fails on every input that starts with a character
  of the class. A greedy repetition in front of such a continuation cannot give a character
  back.
\<close>

definition rejects :: "cls \<Rightarrow> (nat \<Rightarrow> string \<Rightarrow> mstate option) \<Rightarrow> bool" where
  "rejects c k \<longleftrightarrow> (\<forall>p x xs. in_cls c x \<longrightarrow> k p (x # xs) = None)"

text \<open>
  A continuation is blind when its success depends on the position and the remaining input
  only, not on the groups captured so far. Every continuation that the matcher builds from
  the final one is blind.
\<close>

definition blind :: "(mstate \<Rightarrow> mstate option) \<Rightarrow> bool" where
  "blind k \<longleftrightarrow> (\<forall>a b. pos a = pos b \<and> rest a = rest b \<longrightarrow> (k a = None) = (k b = None))"

text \<open>
  A word matches a pattern in full when it is in \<open>lang\<close> of the pattern, where \<^verbatim>\<open>^\<close>
  and \<^verbatim>\<open>$\<close> stand for the empty word. For a pattern of the form \<^verbatim>\<open>^...$\<close> without
  further anchors this is decided by running the matcher with a final continuation that
  insists on the end of the input.
\<close>

fun no_anchor :: "regex \<Rightarrow> bool" where
  "no_anchor Bol = False"
| "no_anchor Eol = False"
| "no_anchor (Atom c) = True"
| "no_anchor (Star c) = True"
| "no_anchor (Seq a b) = (no_anchor a \<and> no_anchor b)"
| "no_anchor (Alt a b) = (no_anchor a \<and> no_anchor b)"
| "no_anchor (Opt r) = no_anchor r"
| "no_anchor (Group n r) = no_anchor r"

fun eol_last :: "regex \<Rightarrow> bool" where
  "eol_last Eol = True"
| "eol_last (Seq a b) = (no_anchor a \<and> eol_last b)"
| "eol_last _ = False"

definition full_match :: "regex \<Rightarrow> string \<Rightarrow> bool" where
  "full_match r s \<longleftrightarrow>
     rmatch r (\<lambda>st. if rest st = [] then Some st else None)
       \<lparr>pos = 0, rest = s, grp = (\<lambda>_. None)\<rparr> \<noteq> None"







section \<open>Properties\<close>

subsection \<open>The matcher\<close>

text \<open>
  Whatever the matcher returns was accepted by the continuation in a state that a match of
  the pattern can reach.
\<close>

lemma star_k_sound:
  "star_k c k p s = Some res \<Longrightarrow>
     \<exists>w s'. s = w @ s' \<and> list_all (in_cls c) w \<and> k (p + length w) s' = Some res"
proof (induction s arbitrary: p)
  case Nil
  then show ?case by simp
next
  case (Cons x xs)
  show ?case
  proof (cases "in_cls c x \<and> star_k c k (Suc p) xs \<noteq> None")
    case True
    then obtain r where r: "star_k c k (Suc p) xs = Some r" by auto
    with Cons.prems True have "r = res" by simp
    with Cons.IH [of "Suc p"] r obtain w s' where
      "xs = w @ s'" "list_all (in_cls c) w" "k (Suc p + length w) s' = Some res" by blast
    with True show ?thesis
      by (intro exI [of _ "x # w"] exI [of _ s']) simp
  next
    case False
    with Cons.prems have "k p (x # xs) = Some res" by (auto split: if_splits option.splits)
    then show ?thesis by (intro exI [of _ "[]"] exI [of _ "x # xs"]) simp
  qed
qed

lemma reach_Alt1: "reach r1 st st' \<Longrightarrow> reach (Alt r1 r2) st st'"
  by (simp add: reach_def) blast

lemma reach_Alt2: "reach r2 st st' \<Longrightarrow> reach (Alt r1 r2) st st'"
  by (simp add: reach_def) blast

lemma reach_Opt: "reach r st st' \<Longrightarrow> reach (Opt r) st st'"
  by (simp add: reach_def) blast

lemma rmatch_sound:
  "rmatch r k st = Some res \<Longrightarrow> \<exists>st'. k st' = Some res \<and> reach r st st'"
proof (induction r arbitrary: k st)
  case Bol
  then show ?case by (auto simp: reach_def split: if_splits)
next
  case Eol
  then show ?case by (auto simp: reach_def split: if_splits)
next
  case (Atom c)
  then show ?case by (auto simp: reach_def split: if_splits list.splits)
next
  case (Star c)
  from Star obtain w s' where "rest st = w @ s'" "list_all (in_cls c) w"
    "k (st\<lparr>pos := pos st + length w, rest := s'\<rparr>) = Some res"
    using star_k_sound [of c "\<lambda>p r. k (st\<lparr>pos := p, rest := r\<rparr>)" "pos st" "rest st" res]
    by auto
  then show ?case
    by (intro exI [of _ "st\<lparr>pos := pos st + length w, rest := s'\<rparr>"]) (simp add: reach_def)
next
  case (Seq r1 r2)
  from Seq.prems have "rmatch r1 (rmatch r2 k) st = Some res" by simp
  from Seq.IH(1) [OF this] obtain st1 where
    a: "rmatch r2 k st1 = Some res" and r1: "reach r1 st st1" by blast
  from Seq.IH(2) [OF a] obtain st2 where
    b: "k st2 = Some res" and r2: "reach r2 st1 st2" by blast
  from r1 obtain w1 where w1: "rest st = w1 @ rest st1" "pos st1 = pos st + length w1" "w1 \<in> lang r1"
    by (auto simp: reach_def)
  from r2 obtain w2 where w2: "rest st1 = w2 @ rest st2" "pos st2 = pos st1 + length w2" "w2 \<in> lang r2"
    by (auto simp: reach_def)
  have g: "\<forall>n. grp st2 n = grp st n \<or> (\<exists>u. grp st2 n = Some u \<and> u \<in> glang (Seq r1 r2) n)"
  proof
    fix n
    from r1 have "grp st1 n = grp st n \<or> (\<exists>u. grp st1 n = Some u \<and> u \<in> glang r1 n)"
      by (simp add: reach_def)
    moreover from r2 have "grp st2 n = grp st1 n \<or> (\<exists>u. grp st2 n = Some u \<and> u \<in> glang r2 n)"
      by (simp add: reach_def)
    ultimately show "grp st2 n = grp st n \<or> (\<exists>u. grp st2 n = Some u \<and> u \<in> glang (Seq r1 r2) n)"
      by auto
  qed
  have "reach (Seq r1 r2) st st2"
    unfolding reach_def
  proof (intro conjI)
    show "\<exists>w. rest st = w @ rest st2 \<and> pos st2 = pos st + length w \<and> w \<in> lang (Seq r1 r2)"
      using w1 w2 by (intro exI [of _ "w1 @ w2"]) auto
    show "\<forall>n. grp st2 n = grp st n \<or> (\<exists>u. grp st2 n = Some u \<and> u \<in> glang (Seq r1 r2) n)"
      by (rule g)
    show "\<forall>n\<in>must (Seq r1 r2). grp st2 n \<noteq> None"
    proof
      fix n assume "n \<in> must (Seq r1 r2)"
      then consider "n \<in> must r1" | "n \<in> must r2" by auto
      then show "grp st2 n \<noteq> None"
      proof cases
        case 1
        with r1 have "grp st1 n \<noteq> None" by (simp add: reach_def)
        moreover from r2 have "grp st2 n = grp st1 n \<or> (\<exists>u. grp st2 n = Some u)"
          by (auto simp: reach_def)
        ultimately show ?thesis by auto
      next
        case 2
        with r2 show ?thesis by (simp add: reach_def)
      qed
    qed
  qed
  with b show ?case by blast
next
  case (Alt r1 r2)
  show ?case
  proof (cases "rmatch r1 k st")
    case None
    with Alt.prems have "rmatch r2 k st = Some res" by simp
    from Alt.IH(2) [OF this] show ?thesis by (blast intro: reach_Alt2)
  next
    case (Some a)
    with Alt.prems have "rmatch r1 k st = Some res" by simp
    from Alt.IH(1) [OF this] show ?thesis by (blast intro: reach_Alt1)
  qed
next
  case (Opt r)
  show ?case
  proof (cases "rmatch r k st")
    case None
    with Opt.prems have "k st = Some res" by simp
    then show ?thesis by (intro exI [of _ st]) (simp add: reach_def)
  next
    case (Some a)
    with Opt.prems have "rmatch r k st = Some res" by simp
    from Opt.IH [OF this] show ?thesis by (blast intro: reach_Opt)
  qed
next
  case (Group n r)
  let ?k = "\<lambda>st'. k (st'\<lparr>grp := (grp st')(n \<mapsto> take (pos st' - pos st) (rest st))\<rparr>)"
  from Group.prems have "rmatch r ?k st = Some res" by simp
  from Group.IH [OF this] obtain st1 where
    a: "?k st1 = Some res" and r1: "reach r st st1" by blast
  from r1 obtain w where w: "rest st = w @ rest st1" "pos st1 = pos st + length w" "w \<in> lang r"
    by (auto simp: reach_def)
  then have tk: "take (pos st1 - pos st) (rest st) = w" by simp
  let ?st' = "st1\<lparr>grp := (grp st1)(n \<mapsto> w)\<rparr>"
  have "reach (Group n r) st ?st'"
    unfolding reach_def
  proof (intro conjI allI)
    show "\<exists>w. rest st = w @ rest ?st' \<and> pos ?st' = pos st + length w \<and> w \<in> lang (Group n r)"
      using w by (intro exI [of _ w]) simp
    fix m
    from r1 have "grp st1 m = grp st m \<or> (\<exists>u. grp st1 m = Some u \<and> u \<in> glang r m)"
      by (simp add: reach_def)
    then show "grp ?st' m = grp st m \<or> (\<exists>u. grp ?st' m = Some u \<and> u \<in> glang (Group n r) m)"
      using w(3) by auto
  next
    from r1 show "\<forall>m\<in>must (Group n r). grp ?st' m \<noteq> None"
      by (simp add: reach_def)
  qed
  with a tk show ?case by (intro exI [of _ ?st']) simp
qed

lemma re_match_capture:
  assumes "re_match r s = Some m"
  shows "m n = None \<or> (\<exists>u. m n = Some u \<and> u \<in> glang r n)"
proof -
  let ?st = "\<lparr>pos = 0, rest = s, grp = (\<lambda>_. None)\<rparr>"
  from assms obtain res where res: "rmatch r Some ?st = Some res" and m: "m = grp res"
    by (auto simp: re_match_def)
  from rmatch_sound [OF res] have "reach r ?st res" by auto
  then have "grp res n = grp ?st n \<or> (\<exists>u. grp res n = Some u \<and> u \<in> glang r n)"
    by (simp add: reach_def)
  with m show ?thesis by simp
qed

lemma re_match_must:
  assumes "re_match r s = Some m" and "n \<in> must r"
  shows "m n \<noteq> None"
proof -
  let ?st = "\<lparr>pos = 0, rest = s, grp = (\<lambda>_. None)\<rparr>"
  from assms obtain res where res: "rmatch r Some ?st = Some res" and m: "m = grp res"
    by (auto simp: re_match_def)
  from rmatch_sound [OF res] have "reach r ?st res" by auto
  with assms(2) m show ?thesis by (simp add: reach_def)
qed

text \<open>
  In front of a continuation that rejects the class, the repetition takes the whole run.
  With these rules the simplifier runs the matcher on inputs that contain variables.
\<close>

lemma star_k_forced:
  assumes "\<And>p' x xs. in_cls c x \<Longrightarrow> k p' (x # xs) = None"
  shows "star_k c k p s = k (p + length (takeWhile (in_cls c) s)) (dropWhile (in_cls c) s)"
proof (induction s arbitrary: p)
  case Nil
  show ?case by simp
next
  case (Cons x xs)
  show ?case
  proof (cases "in_cls c x")
    case True
    with assms have "k p (x # xs) = None" by simp
    with True Cons.IH [of "Suc p"] show ?thesis by (simp split: option.splits)
  next
    case False
    then show ?thesis by simp
  qed
qed

lemma star_k_munch:
  "rejects c k \<Longrightarrow> star_k c k p s = k (p + length (takeWhile (in_cls c) s)) (dropWhile (in_cls c) s)"
  by (rule star_k_forced) (simp add: rejects_def)

lemma takeWhile_run:
  "list_all P xs \<Longrightarrow> \<not> P y \<Longrightarrow> takeWhile P (xs @ y # ys) = xs"
  by (simp add: list_all_iff takeWhile_append2)

lemma dropWhile_run:
  "list_all P xs \<Longrightarrow> \<not> P y \<Longrightarrow> dropWhile P (xs @ y # ys) = y # ys"
  by (simp add: list_all_iff dropWhile_append2)

lemma takeWhile_all: "list_all P xs \<Longrightarrow> takeWhile P xs = xs"
  by (simp add: list_all_iff takeWhile_eq_all_conv)

lemma dropWhile_all: "list_all P xs \<Longrightarrow> dropWhile P xs = []"
  by (simp add: list_all_iff)

lemma in_cls_Digit: "in_cls Digit = is_digit"
  by (rule ext) simp

lemma is_digit_not:
  "is_digit c \<Longrightarrow> c \<noteq> CHR ''-'' \<and> c \<noteq> CHR ''+'' \<and> c \<noteq> CHR ''.'' \<and> c \<noteq> CHR '':''
     \<and> c \<noteq> CHR '' '' \<and> c \<noteq> CHR 0x0A"
  by (auto simp: is_digit_def)

lemma is_digit_word: "is_digit c \<Longrightarrow> is_word c"
  by (auto simp: is_digit_def is_word_def Let_def)

lemma digit_neq [simp]:
  "is_digit c \<Longrightarrow> (c = CHR ''-'') = False"
  "is_digit c \<Longrightarrow> (c = CHR ''+'') = False"
  "is_digit c \<Longrightarrow> (c = CHR ''.'') = False"
  "is_digit c \<Longrightarrow> (c = CHR '':'') = False"
  "is_digit c \<Longrightarrow> (c = CHR '' '') = False"
  "is_digit c \<Longrightarrow> (c = CHR 0x0A) = False"
  by (auto simp: is_digit_def)

lemma not_digit [simp]: "\<not> is_digit CHR '':''" "\<not> is_digit CHR ''.''"
  by (simp_all add: is_digit_def)

lemmas munch_simps = star_k_munch rejects_def in_cls_Digit takeWhile_run dropWhile_run
  takeWhile_all dropWhile_all

subsection \<open>The groups of the two patterns\<close>

lemma names_of_flex: "set (names_of flex_pattern) = {Weeks, Days, Hours, Minutes, Seconds}"
  by (auto simp: flex_pattern_def number_def Plus_def Str_def)

lemma names_of_db: "set (names_of db_pattern) = {Days, Sign, Hours, Minutes, Seconds}"
  by (auto simp: db_pattern_def Plus_def Str_def)

lemma must_db: "must db_pattern = {Sign, Hours, Minutes}"
  by (auto simp: db_pattern_def Str_def Plus_def)

lemma lang_Plus: "lang (Plus c) = {w. w \<noteq> [] \<and> list_all (in_cls c) w}"
proof (intro set_eqI iffI)
  fix w assume "w \<in> lang (Plus c)"
  then show "w \<in> {w. w \<noteq> [] \<and> list_all (in_cls c) w}" by (auto simp: Plus_def)
next
  fix w assume "w \<in> {w. w \<noteq> [] \<and> list_all (in_cls c) w}"
  then obtain x v where w: "w = x # v" "in_cls c x" "list_all (in_cls c) v"
    by (cases w) auto
  have "\<exists>u va. x # v = u @ va \<and> (\<exists>y. u = [y] \<and> in_cls c y) \<and> list_all (in_cls c) va"
    using w by (intro exI [of _ "[x]"] exI [of _ v]) simp
  with w show "w \<in> lang (Plus c)" by (simp add: Plus_def)
qed

lemma glang_Plus: "glang (Plus c) k = {}"
  by (simp add: Plus_def)

lemma glang_number: "glang number k = {}"
  by (simp add: number_def glang_Plus)

lemma glang_db:
  "glang db_pattern Days = lang (Seq (Opt (Atom (OneOf ''-+''))) (Plus Digit))"
  "glang db_pattern Hours = lang (Plus Digit)"
  "glang db_pattern Minutes = lang (Plus Digit)"
  "glang db_pattern Seconds = lang (Seq (Plus Digit) (Opt (Seq (Atom (Lit CHR ''.'')) (Plus Digit))))"
  "glang db_pattern Weeks = {}"
  by (simp_all add: db_pattern_def Str_def glang_Plus)

lemma glang_flex:
  "glang flex_pattern k = (if k = Sign then {} else lang number)"
  by (cases k) (simp_all add: flex_pattern_def Str_def glang_number)

lemma re_match_db_empty: "re_match db_pattern [] = None"
  by code_simp

subsection \<open>Literals\<close>

lemma unsigned_digits:
  assumes "list_all is_digit ds" and "ds \<noteq> []"
  shows "unsigned_lit ds = Some (of_int (digits_val ds))"
proof -
  from assms(1) have tw: "takeWhile is_digit ds = ds" and dw: "dropWhile is_digit ds = []"
    by (simp_all add: list_all_iff takeWhile_eq_all_conv)
  show ?thesis unfolding unsigned_lit_def Let_def tw dw using assms(2) by simp
qed

lemma unsigned_point:
  assumes "list_all is_digit ds" and "list_all is_digit fs" and "ds \<noteq> [] \<or> fs \<noteq> []"
  shows "unsigned_lit (ds @ CHR ''.'' # fs)
     = Some (of_int (digits_val ds) + of_int (digits_val fs) / 10 ^ length fs)"
proof -
  have nd: "\<not> is_digit CHR ''.''" by (simp add: is_digit_def)
  from assms(1) nd have tw: "takeWhile is_digit (ds @ CHR ''.'' # fs) = ds"
    and dw: "dropWhile is_digit (ds @ CHR ''.'' # fs) = CHR ''.'' # fs"
    by (simp_all add: list_all_iff takeWhile_append2 dropWhile_append2)
  show ?thesis unfolding unsigned_lit_def Let_def tw dw using assms(2,3) by simp
qed

lemma float_lit_unsigned:
  assumes "u \<noteq> []" and "hd u \<noteq> CHR ''-''" and "hd u \<noteq> CHR ''+''"
  shows "float_lit u = unsigned_lit u"
  using assms by (cases u) simp_all

lemma float_lit_minus: "float_lit (CHR ''-'' # u) = map_option uminus (unsigned_lit u)"
  by simp

lemma udecimal_digits: "list_all is_digit ds \<Longrightarrow> ds \<noteq> [] \<Longrightarrow> udecimal ds"
  using is_digit_not [of "hd ds"]
  by (cases ds) (auto simp: udecimal_def unsigned_digits)

lemma udecimal_point:
  assumes "list_all is_digit ds" and "list_all is_digit fs" and "fs \<noteq> []"
  shows "udecimal (ds @ CHR ''.'' # fs)"
proof -
  have "hd (ds @ CHR ''.'' # fs) \<noteq> CHR ''-'' \<and> hd (ds @ CHR ''.'' # fs) \<noteq> CHR ''+''"
    using assms(1) is_digit_not [of "hd ds"] by (cases ds) auto
  then show ?thesis using assms by (simp add: udecimal_def unsigned_point)
qed

lemma udecimal_float: "udecimal u \<Longrightarrow> \<exists>x. float_lit u = Some x \<and> float_lit (CHR ''-'' # u) = Some (- x)"
  by (auto simp: udecimal_def float_lit_unsigned)

lemma digit_val_nonneg: "is_digit c \<Longrightarrow> 0 \<le> digit_val c"
proof -
  assume "is_digit c"
  then have "48 \<le> (of_char c :: nat)" by (simp add: is_digit_def Let_def)
  then have "48 \<le> int (of_char c)" by simp
  then show ?thesis by (simp add: digit_val_def of_nat_of_char)
qed

lemma foldl_digits_nonneg:
  "list_all is_digit ds \<Longrightarrow> 0 \<le> a \<Longrightarrow> 0 \<le> foldl (\<lambda>a c. 10 * a + digit_val c) a ds"
proof (induction ds arbitrary: a)
  case Nil
  then show ?case by simp
next
  case (Cons c ds)
  from Cons.prems have "0 \<le> 10 * a + digit_val c" using digit_val_nonneg [of c] by simp
  with Cons show ?case by simp
qed

lemma digits_val_nonneg: "list_all is_digit ds \<Longrightarrow> 0 \<le> digits_val ds"
  by (simp add: digits_val_def foldl_digits_nonneg)

lemma float_lit_digits:
  "list_all is_digit ds \<Longrightarrow> ds \<noteq> [] \<Longrightarrow> float_lit ds = Some (of_int (digits_val ds))"
  using udecimal_digits [of ds] unsigned_digits [of ds]
  by (simp add: udecimal_def float_lit_unsigned)

lemma unsigned_lit_nonneg:
  assumes "unsigned_lit u = Some x"
  shows "0 \<le> x"
proof -
  have ip: "0 \<le> digits_val (takeWhile is_digit u)"
    by (rule digits_val_nonneg) (simp add: list_all_iff, meson set_takeWhileD)
  show ?thesis
  proof (cases "dropWhile is_digit u")
    case Nil
    with assms ip show ?thesis by (auto simp: unsigned_lit_def Let_def split: if_splits)
  next
    case (Cons c fp)
    with assms have fp: "list_all is_digit fp"
      and x: "x = of_int (digits_val (takeWhile is_digit u)) + of_int (digits_val fp) / 10 ^ length fp"
      by (auto simp: unsigned_lit_def Let_def split: if_splits)
    from digits_val_nonneg [OF fp] ip x show ?thesis by simp
  qed
qed

lemma udecimal_value:
  assumes "udecimal u"
  obtains x where "unsigned_lit u = Some x" "0 \<le> x" "py_float (PStr u) = Inr x"
    "py_float (PStr (CHR ''-'' # u)) = Inr (- x)"
proof -
  from assms obtain x where x: "unsigned_lit u = Some x" by (auto simp: udecimal_def)
  with assms have "float_lit u = Some x" by (simp add: udecimal_def float_lit_unsigned)
  with x unsigned_lit_nonneg [OF x] that show ?thesis by simp
qed

lemma lang_digits_point:
  "u \<in> lang (Seq (Plus Digit) (Opt (Seq (Atom (Lit CHR ''.'')) (Plus Digit)))) \<Longrightarrow> udecimal u"
  by (auto simp: lang_Plus in_cls_Digit udecimal_digits udecimal_point)

lemma lang_magnitude:
  "u \<in> lang (Alt (seqs [Star Digit, Atom (Lit CHR ''.''), Plus Digit]) (Plus Digit)) \<Longrightarrow> udecimal u"
  by (auto simp: lang_Plus in_cls_Digit udecimal_digits udecimal_point)

lemma lang_number:
  assumes "u \<in> lang number"
  shows "udecimal u \<or> (\<exists>v. u = CHR ''-'' # v \<and> udecimal v)"
proof -
  from assms obtain a b where u: "u = a @ b" and a: "a = [] \<or> a = ''-''"
    and b: "b \<in> lang (Alt (seqs [Star Digit, Atom (Lit CHR ''.''), Plus Digit]) (Plus Digit))"
    unfolding number_def by (auto simp del: seqs.simps)
  from lang_magnitude [OF b] a u show ?thesis by auto
qed

lemma lang_signed_digits:
  assumes "u \<in> lang (Seq (Opt (Atom (OneOf ''-+''))) (Plus Digit))"
  shows "\<exists>x. float_lit u = Some x"
proof -
  from assms obtain a b where u: "u = a @ b" and a: "a = [] \<or> a = ''-'' \<or> a = ''+''"
    and b: "b \<noteq> []" "list_all is_digit b"
    by (auto simp: lang_Plus in_cls_Digit)
  from udecimal_digits [OF b(2,1)] have ud: "udecimal b" .
  then obtain x where "float_lit b = Some x" "unsigned_lit b = Some x"
    by (auto simp: udecimal_def float_lit_unsigned)
  with a u show ?thesis by auto
qed

lemma db_capture:
  assumes "re_match db_pattern s = Some m"
  shows "m Weeks = None"
    and "m Days = Some u \<Longrightarrow> \<exists>x. float_lit u = Some x"
    and "k \<in> {Hours, Minutes, Seconds} \<Longrightarrow> m k = Some u \<Longrightarrow> udecimal u"
proof -
  from re_match_capture [OF assms, of Weeks] show "m Weeks = None" by (simp add: glang_db)
  show "\<exists>x. float_lit u = Some x" if "m Days = Some u"
    using re_match_capture [OF assms, of Days] that lang_signed_digits [of u]
    by (simp add: glang_db)
  show "udecimal u" if "k \<in> {Hours, Minutes, Seconds}" "m k = Some u"
  proof -
    have "u \<in> lang (Plus Digit) \<Longrightarrow> udecimal u"
      by (simp add: lang_Plus in_cls_Digit udecimal_digits)
    with that re_match_capture [OF assms, of k] lang_digits_point [of u]
    show ?thesis by (auto simp: glang_db)
  qed
qed

lemma flex_capture:
  assumes "re_match flex_pattern s = Some m" and "m k = Some u"
  shows "udecimal u \<or> (\<exists>v. u = CHR ''-'' # v \<and> udecimal v)"
  using re_match_capture [OF assms(1), of k] assms(2) lang_number [of u]
  by (auto simp: glang_flex split: if_splits)

subsection \<open>The dictionary and the constructor\<close>

lemma py_float_error: "py_float v = Inl e \<Longrightarrow> e = ValueError"
  by (cases v) (auto split: option.splits)

lemma float_items_Inr:
  "float_items ks d = Inr a \<Longrightarrow>
     a k = (if k \<in> set ks
            then (case d k of None \<Rightarrow> None
                  | Some v \<Rightarrow> (case py_float v of Inl e \<Rightarrow> None | Inr x \<Rightarrow> Some x))
            else None)"
proof (induction ks arbitrary: a)
  case Nil
  then show ?case by auto
next
  case (Cons k' ks)
  then show ?case by (auto split: option.splits sum.splits)
qed

lemma float_items_Inl:
  "float_items ks d = Inl e \<Longrightarrow> \<exists>k\<in>set ks. \<exists>v. d k = Some v \<and> py_float v = Inl e"
proof (induction ks)
  case Nil
  then show ?case by simp
next
  case (Cons k' ks)
  then show ?case by (auto split: option.splits sum.splits)
qed

lemma timedelta_new_error: "timedelta_new a = Inl e \<Longrightarrow> a Sign = None \<Longrightarrow> e = OverflowError"
  by (auto simp: timedelta_new_def Let_def split: if_splits)

lemma to_timedelta_error:
  assumes "to_timedelta d = Inl e" and "d Sign = None"
    and "\<And>k v. d k = Some v \<Longrightarrow> \<exists>x. py_float v = Inr x"
  shows "e = OverflowError"
proof (cases "float_items [Weeks, Days, Sign, Hours, Minutes, Seconds] d")
  case (Inl e')
  from float_items_Inl [OF this] assms(3) show ?thesis by fastforce
next
  case (Inr a)
  from float_items_Inr [OF Inr, of Sign] assms(2) have "a Sign = None" by simp
  moreover from assms(1) Inr have "timedelta_new a = Inl e" by (simp add: to_timedelta_def)
  ultimately show ?thesis by (rule timedelta_new_error [rotated])
qed

lemma negate_keys_Inl:
  "negate_keys ks d = Inl e \<Longrightarrow> \<forall>k\<in>set ks. d k \<noteq> None \<Longrightarrow>
     e = ConcatTypeError \<and> (\<exists>k\<in>set ks. \<exists>n. d k = Some (PInt n))"
proof (induction ks arbitrary: d)
  case Nil
  then show ?case by simp
next
  case (Cons k ks)
  from Cons.prems(2) obtain v where v: "d k = Some v" by auto
  show ?case
  proof (cases v)
    case (PInt n)
    with v Cons.prems(1) show ?thesis by simp
  next
    case (PStr u)
    let ?d1 = "d(k \<mapsto> PStr (''-'' @ u))"
    from PStr v Cons.prems(1) have "negate_keys ks ?d1 = Inl e" by simp
    moreover from Cons.prems(2) have "\<forall>k'\<in>set ks. ?d1 k' \<noteq> None" by simp
    ultimately have "e = ConcatTypeError \<and> (\<exists>k'\<in>set ks. \<exists>n. ?d1 k' = Some (PInt n))"
      by (rule Cons.IH)
    then obtain k' n where "e = ConcatTypeError" "k' \<in> set ks" "?d1 k' = Some (PInt n)" by blast
    moreover from this have "d k' = Some (PInt n)" by (auto split: if_splits)
    ultimately show ?thesis by auto
  qed
qed

lemma negate_keys_Inr:
  "negate_keys ks d = Inr d' \<Longrightarrow> distinct ks \<Longrightarrow>
     (\<forall>k\<in>set ks. \<exists>u. d k = Some (PStr u) \<and> d' k = Some (PStr (CHR ''-'' # u)))
     \<and> (\<forall>k. k \<notin> set ks \<longrightarrow> d' k = d k)"
proof (induction ks arbitrary: d)
  case Nil
  then show ?case by simp
next
  case (Cons k ks)
  from Cons.prems(1) obtain u where u: "d k = Some (PStr u)"
    and rec: "negate_keys ks (d(k \<mapsto> PStr (CHR ''-'' # u))) = Inr d'"
    by (auto split: option.splits sum.splits pyval.splits elim: str_add.elims)
  from Cons.prems(2) have dk: "k \<notin> set ks" "distinct ks" by simp_all
  let ?d1 = "d(k \<mapsto> PStr (CHR ''-'' # u))"
  from Cons.IH [OF rec dk(2)] have
    a: "\<forall>k'\<in>set ks. \<exists>v. ?d1 k' = Some (PStr v) \<and> d' k' = Some (PStr (CHR ''-'' # v))"
    and b: "\<forall>k'. k' \<notin> set ks \<longrightarrow> d' k' = ?d1 k'" by simp_all
  show ?case
  proof (intro conjI ballI allI impI)
    fix k' assume k': "k' \<in> set (k # ks)"
    show "\<exists>v. d k' = Some (PStr v) \<and> d' k' = Some (PStr (CHR ''-'' # v))"
    proof (cases "k' = k")
      case True
      with b dk(1) u show ?thesis by simp
    next
      case False
      with k' have "k' \<in> set ks" by simp
      with a False show ?thesis by fastforce
    qed
  next
    fix k' assume "k' \<notin> set (k # ks)"
    with b show "d' k' = d k'" by simp
  qed
qed

lemma groupdict_Some:
  "groupdict r dflt m k = Some v \<Longrightarrow>
     k \<in> set (names_of r) \<and> (m k = None \<and> v = dflt \<or> (\<exists>u. m k = Some u \<and> v = PStr u))"
  by (auto simp: groupdict_def split: if_splits option.splits)

lemma groupdict_dom: "groupdict r dflt m k = None \<longleftrightarrow> k \<notin> set (names_of r)"
  by (simp add: groupdict_def)

lemma py_round_of_int: "py_round (of_int z) = z"
  by (simp add: py_round_def)

lemma timedelta_new_int:
  assumes "a Sign = None" and "weighted_seconds a = of_int n"
  shows "timedelta_new a =
     (if \<bar>n div 86400\<bar> > 999999999 then Inl OverflowError
      else Inr \<lparr>days = n div 86400, seconds = n mod 86400, microseconds = 0\<rparr>)"
proof -
  have "weighted_seconds a * 1000000 = of_int (n * 1000000)" by (simp add: assms(2))
  then have r: "py_round (weighted_seconds a * 1000000) = n * 1000000"
    by (simp only: py_round_of_int)
  have d: "(n * 1000000) div 86400000000 = n div 86400"
    using div_mult_mult2 [of "1000000::int" n 86400] by simp
  have m: "(n * 1000000) mod 86400000000 = (n mod 86400) * 1000000"
    using mult_mod_left [of n 86400 "1000000::int"] by simp
  show ?thesis
    using assms(1) by (simp add: timedelta_new_def r d m)
qed

subsection \<open>Every way in which \<^verbatim>\<open>parse\<close> can fail\<close>

lemma parse_error_cases:
  assumes "parse s = Inl e"
  shows "e = InvalidFormat s \<or> e = OverflowError
     \<or> (e = ConcatTypeError
         \<and> (\<exists>m. re_match db_pattern s = Some m \<and> m Sign = Some ''-'' \<and> m Seconds = None))"
proof (cases "re_match db_pattern s")
  case None
  show ?thesis
  proof (cases "re_match flex_pattern s")
    case n: None
    with None assms(1) show ?thesis by (simp add: parse_def parse_with_def split: if_splits)
  next
    case (Some m)
    let ?d = "groupdict flex_pattern (PInt 0) m"
    show ?thesis
    proof (cases "s = []")
      case True
      with assms(1) show ?thesis by (simp add: parse_def parse_with_def)
    next
      case False
      with None Some assms(1) have td: "to_timedelta ?d = Inl e"
        by (simp add: parse_def parse_with_def)
      have sg: "?d Sign = None" by (simp add: groupdict_dom names_of_flex)
      have "\<exists>x. py_float v = Inr x" if "?d k = Some v" for k v
      proof -
        from groupdict_Some [OF that]
        consider "v = PInt 0" | u where "m k = Some u" "v = PStr u" by auto
        then show ?thesis
        proof cases
          case 1
          then show ?thesis by simp
        next
          case 2
          from flex_capture [OF Some 2(1)] 2(2) show ?thesis
            by (auto dest!: udecimal_float)
        qed
      qed
      from to_timedelta_error [OF td sg this] show ?thesis by simp
    qed
  qed
next
  case (Some m)
  let ?d = "groupdict db_pattern (PInt 0) m"
  have ok: "\<exists>x. py_float v = Inr x \<and> (k \<in> {Hours, Minutes, Seconds} \<longrightarrow>
       (\<forall>u. v = PStr u \<longrightarrow> (\<exists>y. py_float (PStr (CHR ''-'' # u)) = Inr y)))"
    if "?d k = Some v" and "k \<noteq> Sign" for k v
  proof -
    from groupdict_Some [OF that(1)]
    consider "v = PInt 0" | u where "m k = Some u" "v = PStr u" by auto
    then show ?thesis
    proof cases
      case 1
      then show ?thesis by simp
    next
      case 2
      from groupdict_Some [OF that(1)] that(2)
      consider "k = Days" | "k \<in> {Hours, Minutes, Seconds}"
        by (auto simp: names_of_db)
      then show ?thesis
      proof cases
        case 1
        with db_capture(2) [OF Some, of u] 2 show ?thesis by auto
      next
        case k: 2
        from db_capture(3) [OF Some k 2(1)] 2(2) show ?thesis
          by (auto dest!: udecimal_float)
      qed
    qed
  qed
  show ?thesis
  proof (cases "s = []")
    case True
    with assms(1) show ?thesis by (simp add: parse_def parse_with_def)
  next
    case False
    obtain sg where sg: "?d Sign = Some sg"
      by (cases "?d Sign") (simp_all add: groupdict_dom names_of_db)
    show ?thesis
    proof (cases "sg = PStr ''-''")
      case neg: True
      show ?thesis
      proof (cases "negate_keys [Hours, Minutes, Seconds] ?d")
        case (Inl e')
        have "\<forall>k\<in>set [Hours, Minutes, Seconds]. ?d k \<noteq> None"
          by (simp add: groupdict_dom names_of_db)
        from negate_keys_Inl [OF Inl this] obtain k n where e': "e' = ConcatTypeError"
          and k: "k \<in> {Hours, Minutes, Seconds}" "?d k = Some (PInt n)" by auto
        from groupdict_Some [OF k(2)] have "m k = None" by auto
        with k(1) re_match_must [OF Some, of Hours] re_match_must [OF Some, of Minutes]
        have sec: "m Seconds = None" by (auto simp: must_db)
        from groupdict_Some [OF sg] neg have "m Sign = Some ''-''" by auto
        moreover from Inl Some False sg neg assms e' have "e = ConcatTypeError"
          by (simp add: parse_def parse_with_def)
        ultimately show ?thesis using Some sec by simp
      next
        case (Inr d')
        with Some False sg neg assms(1) have td: "to_timedelta (d'(Sign := None)) = Inl e"
          by (simp add: parse_def parse_with_def)
        from negate_keys_Inr [OF Inr] have
          n1: "\<forall>k\<in>set [Hours, Minutes, Seconds]. \<exists>u. ?d k = Some (PStr u) \<and> d' k = Some (PStr (CHR ''-'' # u))"
          and n2: "\<forall>k. k \<notin> set [Hours, Minutes, Seconds] \<longrightarrow> d' k = ?d k"
          by simp_all
        have "\<exists>x. py_float v = Inr x" if "(d'(Sign := None)) k = Some v" for k v
        proof (cases "k \<in> {Hours, Minutes, Seconds}")
          case True
          with n1 obtain u where u: "?d k = Some (PStr u)" "d' k = Some (PStr (CHR ''-'' # u))"
            by auto
          from True have "k \<noteq> Sign" by auto
          from ok [OF u(1) this] True u(2) that show ?thesis by (auto split: if_splits)
        next
          case False
          with n2 that have "?d k = Some v" "k \<noteq> Sign" by (auto split: if_splits)
          from ok [OF this] show ?thesis by blast
        qed
        from to_timedelta_error [OF td _ this] show ?thesis by simp
      qed
    next
      case pos: False
      with Some False sg assms(1) have td: "to_timedelta (?d(Sign := None)) = Inl e"
        by (simp add: parse_def parse_with_def)
      have "\<exists>x. py_float v = Inr x" if "(?d(Sign := None)) k = Some v" for k v
      proof -
        from that have "?d k = Some v" "k \<noteq> Sign" by (auto split: if_splits)
        from ok [OF this] show ?thesis by blast
      qed
      from to_timedelta_error [OF td _ this] show ?thesis by simp
    qed
  qed
qed

subsection \<open>Clock times made of digits\<close>

lemma db_hm:
  assumes "is_digit d" "list_all is_digit h" "is_digit e" "list_all is_digit mi"
  shows "rmatch db_pattern Some \<lparr>pos = 0, rest = (d # h) @ CHR '':'' # e # mi, grp = (\<lambda>_. None)\<rparr>
     = Some \<lparr>pos = Suc (Suc (Suc (length h + length mi))), rest = [],
             grp = [Sign \<mapsto> [], Hours \<mapsto> d # h, Minutes \<mapsto> e # mi]\<rparr>"
  using assms
  by (simp add: db_pattern_def Str_def Plus_def munch_simps)

lemma db_hms:
  assumes "is_digit d" "list_all is_digit h" "is_digit e" "list_all is_digit mi"
    "is_digit f" "list_all is_digit sec"
  shows "rmatch db_pattern Some
       \<lparr>pos = 0, rest = (d # h) @ CHR '':'' # (e # mi) @ CHR '':'' # f # sec, grp = (\<lambda>_. None)\<rparr>
     = Some \<lparr>pos = Suc (Suc (Suc (Suc (Suc (length h + length mi + length sec))))), rest = [],
             grp = [Sign \<mapsto> [], Hours \<mapsto> d # h, Minutes \<mapsto> e # mi, Seconds \<mapsto> f # sec]\<rparr>"
  using assms
  by (simp add: db_pattern_def Str_def Plus_def munch_simps)

lemma re_match_db_hm:
  assumes "h \<noteq> []" "list_all is_digit h" "mi \<noteq> []" "list_all is_digit mi"
  shows "re_match db_pattern (h @ CHR '':'' # mi) = Some [Sign \<mapsto> [], Hours \<mapsto> h, Minutes \<mapsto> mi]"
proof -
  from assms obtain d h' e mi' where "h = d # h'" "mi = e # mi'"
    "is_digit d" "list_all is_digit h'" "is_digit e" "list_all is_digit mi'"
    by (cases h; cases mi) auto
  with db_hm [of d h' e mi'] show ?thesis by (simp add: re_match_def)
qed

lemma re_match_db_hms:
  assumes "h \<noteq> []" "list_all is_digit h" "mi \<noteq> []" "list_all is_digit mi"
    "sec \<noteq> []" "list_all is_digit sec"
  shows "re_match db_pattern (h @ CHR '':'' # mi @ CHR '':'' # sec)
     = Some [Sign \<mapsto> [], Hours \<mapsto> h, Minutes \<mapsto> mi, Seconds \<mapsto> sec]"
proof -
  from assms obtain d h' e mi' f sec' where "h = d # h'" "mi = e # mi'" "sec = f # sec'"
    "is_digit d" "list_all is_digit h'" "is_digit e" "list_all is_digit mi'"
    "is_digit f" "list_all is_digit sec'"
    by (cases h; cases mi; cases sec) auto
  with db_hms [of d h' e mi' f sec'] show ?thesis by (simp add: re_match_def)
qed

subsection \<open>The sign of the clock time\<close>

lemma db_sign_distributes:
  assumes "re_match db_pattern s = Some m" and "m Sign = Some ''-''" and "m Seconds = Some sec"
  shows "\<exists>h mi xd xh xm xs. m Hours = Some h \<and> m Minutes = Some mi
     \<and> unsigned_lit h = Some xh \<and> unsigned_lit mi = Some xm \<and> unsigned_lit sec = Some xs
     \<and> 0 \<le> xh \<and> 0 \<le> xm \<and> 0 \<le> xs
     \<and> py_float (case m Days of None \<Rightarrow> PInt 0 | Some u \<Rightarrow> PStr u) = Inr xd
     \<and> parse s = timedelta_new [Seconds \<mapsto> - xs, Minutes \<mapsto> - xm, Hours \<mapsto> - xh, Days \<mapsto> xd]"
proof -
  from re_match_must [OF assms(1), of Hours] re_match_must [OF assms(1), of Minutes]
  obtain h mi where h: "m Hours = Some h" and mi: "m Minutes = Some mi"
    by (auto simp: must_db)
  from db_capture(3) [OF assms(1), of Hours h] h have "udecimal h" by simp
  then obtain xh where xh: "unsigned_lit h = Some xh" "0 \<le> xh"
    "py_float (PStr (CHR ''-'' # h)) = Inr (- xh)" by (rule udecimal_value)
  from db_capture(3) [OF assms(1), of Minutes mi] mi have "udecimal mi" by simp
  then obtain xm where xm: "unsigned_lit mi = Some xm" "0 \<le> xm"
    "py_float (PStr (CHR ''-'' # mi)) = Inr (- xm)" by (rule udecimal_value)
  from db_capture(3) [OF assms(1), of Seconds sec] assms(3) have "udecimal sec" by simp
  then obtain xs where xs: "unsigned_lit sec = Some xs" "0 \<le> xs"
    "py_float (PStr (CHR ''-'' # sec)) = Inr (- xs)" by (rule udecimal_value)
  obtain xd where xd: "py_float (case m Days of None \<Rightarrow> PInt 0 | Some u \<Rightarrow> PStr u) = Inr xd"
    using db_capture(2) [OF assms(1)] by (cases "m Days") auto
  from assms(1) re_match_db_empty have ne: "s \<noteq> []" by auto
  have "parse s = timedelta_new [Seconds \<mapsto> - xs, Minutes \<mapsto> - xm, Hours \<mapsto> - xh, Days \<mapsto> xd]"
    unfolding parse_def parse_with_def
    using ne assms h mi xh(3) xm(3) xs(3) xd db_capture(1) [OF assms(1)]
    by (simp add: groupdict_def names_of_db to_timedelta_def)
  with h mi xh xm xs xd show ?thesis by blast
qed

subsection \<open>Matching in full\<close>

text \<open>
  The matcher is complete: a word of \<open>lang\<close> in front of an input that the continuation
  accepts is found, whatever the order of the attempts. With soundness, a pattern of the
  form \<^verbatim>\<open>^...$\<close> matches an input exactly when the input, or the input without a line
  feed that ends it, is a word of the pattern.
\<close>

lemma star_k_None_cong:
  assumes "\<And>p r. (k p r = None) = (k' p r = None)"
  shows "(star_k c k p s = None) = (star_k c k' p s = None)"
proof (induction s arbitrary: p)
  case Nil
  show ?case by (simp add: assms)
next
  case (Cons x xs)
  have "(star_k c k p (x # xs) = None)
      = (if in_cls c x then star_k c k (Suc p) xs = None \<and> k p (x # xs) = None
         else k p (x # xs) = None)"
    by (simp split: option.splits)
  moreover have "(star_k c k' p (x # xs) = None)
      = (if in_cls c x then star_k c k' (Suc p) xs = None \<and> k' p (x # xs) = None
         else k' p (x # xs) = None)"
    by (simp split: option.splits)
  ultimately show ?case using Cons [of "Suc p"] assms [of p "x # xs"] by simp
qed

lemma rmatch_None_cong:
  assumes "\<And>a b. pos a = pos b \<Longrightarrow> rest a = rest b \<Longrightarrow> (k a = None) = (k' b = None)"
    and "pos st = pos st'" and "rest st = rest st'"
  shows "(rmatch r k st = None) = (rmatch r k' st' = None)"
  using assms
proof (induction r arbitrary: k k' st st')
  case Bol
  then show ?case by simp
next
  case Eol
  then show ?case by simp
next
  case (Atom c)
  show ?case
  proof (cases "rest st")
    case Nil
    with Atom.prems show ?thesis by simp
  next
    case (Cons x xs)
    with Atom.prems(3) have r': "rest st' = x # xs" by simp
    have "(k (st\<lparr>pos := Suc (pos st), rest := xs\<rparr>) = None)
        = (k' (st'\<lparr>pos := Suc (pos st'), rest := xs\<rparr>) = None)"
      by (rule Atom.prems(1)) (simp_all add: Atom.prems(2))
    then show ?thesis by (simp add: Cons r')
  qed
next
  case (Star c)
  have "(star_k c (\<lambda>p r. k (st\<lparr>pos := p, rest := r\<rparr>)) (pos st) (rest st) = None)
      = (star_k c (\<lambda>p r. k' (st'\<lparr>pos := p, rest := r\<rparr>)) (pos st) (rest st) = None)"
    by (rule star_k_None_cong) (rule Star.prems(1), simp_all)
  with Star.prems(2,3) show ?case by simp
next
  case (Seq r1 r2)
  have "(rmatch r1 (rmatch r2 k) st = None) = (rmatch r1 (rmatch r2 k') st' = None)"
  proof (rule Seq.IH(1) [OF _ Seq.prems(2,3)])
    fix a b :: mstate assume ab: "pos a = pos b" "rest a = rest b"
    show "(rmatch r2 k a = None) = (rmatch r2 k' b = None)"
      by (rule Seq.IH(2) [OF Seq.prems(1) ab])
  qed
  then show ?case by simp
next
  case (Alt r1 r2)
  have a: "(rmatch r1 k st = None) = (rmatch r1 k' st' = None)"
    by (rule Alt.IH(1) [OF Alt.prems])
  have b: "(rmatch r2 k st = None) = (rmatch r2 k' st' = None)"
    by (rule Alt.IH(2) [OF Alt.prems])
  have "(rmatch (Alt r1 r2) k st = None) = (rmatch r1 k st = None \<and> rmatch r2 k st = None)"
    by (simp split: option.splits)
  moreover have "(rmatch (Alt r1 r2) k' st' = None)
      = (rmatch r1 k' st' = None \<and> rmatch r2 k' st' = None)"
    by (simp split: option.splits)
  ultimately show ?case using a b by simp
next
  case (Opt r)
  have a: "(rmatch r k st = None) = (rmatch r k' st' = None)"
    by (rule Opt.IH [OF Opt.prems])
  have b: "(k st = None) = (k' st' = None)"
    by (rule Opt.prems(1) [OF Opt.prems(2,3)])
  have "(rmatch (Opt r) k st = None) = (rmatch r k st = None \<and> k st = None)"
    by (simp split: option.splits)
  moreover have "(rmatch (Opt r) k' st' = None) = (rmatch r k' st' = None \<and> k' st' = None)"
    by (simp split: option.splits)
  ultimately show ?case using a b by simp
next
  case (Group n r)
  let ?k = "\<lambda>a. k (a\<lparr>grp := (grp a)(n \<mapsto> take (pos a - pos st) (rest st))\<rparr>)"
  let ?k' = "\<lambda>b. k' (b\<lparr>grp := (grp b)(n \<mapsto> take (pos b - pos st') (rest st'))\<rparr>)"
  have "(rmatch r ?k st = None) = (rmatch r ?k' st' = None)"
  proof (rule Group.IH [OF _ Group.prems(2,3)])
    fix a b :: mstate assume ab: "pos a = pos b" "rest a = rest b"
    show "(?k a = None) = (?k' b = None)"
      by (rule Group.prems(1)) (simp_all add: ab)
  qed
  then show ?case by simp
qed

lemma blind_Some: "blind Some"
  by (simp add: blind_def)

lemma blind_rmatch:
  assumes "blind k"
  shows "blind (rmatch r k)"
  unfolding blind_def
proof (intro allI impI)
  fix a b :: mstate assume ab: "pos a = pos b \<and> rest a = rest b"
  have "\<And>a' b'. pos a' = pos b' \<Longrightarrow> rest a' = rest b' \<Longrightarrow> (k a' = None) = (k b' = None)"
    using assms unfolding blind_def by blast
  then show "(rmatch r k a = None) = (rmatch r k b = None)"
    using ab by (intro rmatch_None_cong) blast+
qed



lemma star_k_complete:
  "list_all (in_cls c) w \<Longrightarrow> k (p + length w) z \<noteq> None \<Longrightarrow> star_k c k p (w @ z) \<noteq> None"
proof (induction w arbitrary: p)
  case Nil
  show ?case
  proof (cases z)
    case Nil
    with Nil.prems show ?thesis by simp
  next
    case (Cons x xs)
    with Nil.prems have "k p (x # xs) \<noteq> None" by simp
    with Cons show ?thesis
      by (cases "in_cls c x"; cases "star_k c k (Suc p) xs") simp_all
  qed
next
  case (Cons x w)
  from Cons.prems have "star_k c k (Suc p) (w @ z) \<noteq> None"
    by (intro Cons.IH) simp_all
  then obtain y where "star_k c k (Suc p) (w @ z) = Some y" by auto
  with Cons.prems(1) show ?case by simp
qed

lemma blindD:
  assumes "blind k" and "pos a = pos b" and "rest a = rest b" and "k b \<noteq> None"
  shows "k a \<noteq> None"
proof -
  from assms(1-3) have "(k a = None) = (k b = None)" unfolding blind_def by blast
  with assms(4) show ?thesis by simp
qed

lemma rmatch_complete:
  assumes "no_anchor r" and "w \<in> lang r" and "rest st = w @ z" and "blind k"
    and "k st' \<noteq> None" and "pos st' = pos st + length w" and "rest st' = z"
  shows "rmatch r k st \<noteq> None"
  using assms
proof (induction r arbitrary: k st st' w z)
  case Bol
  then show ?case by simp
next
  case Eol
  then show ?case by simp
next
  case (Atom c)
  from Atom.prems(2) obtain x where x: "w = [x]" "in_cls c x" by auto
  from Atom.prems(3) x have r: "rest st = x # z" by simp
  have "k (st\<lparr>pos := Suc (pos st), rest := z\<rparr>) \<noteq> None"
  proof (rule blindD [OF Atom.prems(4) _ _ Atom.prems(5)])
    show "pos (st\<lparr>pos := Suc (pos st), rest := z\<rparr>) = pos st'"
      using Atom.prems(6) x(1) by simp
    show "rest (st\<lparr>pos := Suc (pos st), rest := z\<rparr>) = rest st'"
      using Atom.prems(7) by simp
  qed
  with x(2) r show ?case by simp
next
  case (Star c)
  from Star.prems(2) have w: "list_all (in_cls c) w" by simp
  have "k (st\<lparr>pos := pos st + length w, rest := z\<rparr>) \<noteq> None"
  proof (rule blindD [OF Star.prems(4) _ _ Star.prems(5)])
    show "pos (st\<lparr>pos := pos st + length w, rest := z\<rparr>) = pos st'"
      using Star.prems(6) by simp
    show "rest (st\<lparr>pos := pos st + length w, rest := z\<rparr>) = rest st'"
      using Star.prems(7) by simp
  qed
  then have "star_k c (\<lambda>p r. k (st\<lparr>pos := p, rest := r\<rparr>)) (pos st) (w @ z) \<noteq> None"
    by (intro star_k_complete [OF w])
  then show ?case by (simp add: Star.prems(3))
next
  case (Seq a b)
  from Seq.prems(2) obtain u v where uv: "w = u @ v" "u \<in> lang a" "v \<in> lang b" by auto
  from Seq.prems(1) have na: "no_anchor a" "no_anchor b" by simp_all
  let ?st1 = "st\<lparr>pos := pos st + length u, rest := v @ z\<rparr>"
  have p1: "pos st' = pos ?st1 + length v" using Seq.prems(6) uv(1) by simp
  have r1: "rest ?st1 = v @ z" by simp
  have b: "rmatch b k ?st1 \<noteq> None"
    by (rule Seq.IH(2) [OF na(2) uv(3) r1 Seq.prems(4) Seq.prems(5) p1 Seq.prems(7)])
  have r0: "rest st = u @ (v @ z)" using Seq.prems(3) uv(1) by simp
  have p0: "pos ?st1 = pos st + length u" by simp
  have "rmatch a (rmatch b k) st \<noteq> None"
    by (rule Seq.IH(1) [OF na(1) uv(2) r0 blind_rmatch [OF Seq.prems(4)] b p0 r1])
  then show ?case by simp
next
  case (Alt a b)
  from Alt.prems(1) have na: "no_anchor a" "no_anchor b" by simp_all
  from Alt.prems(2) consider "w \<in> lang a" | "w \<in> lang b" by auto
  then show ?case
  proof cases
    case 1
    have "rmatch a k st \<noteq> None"
      by (rule Alt.IH(1) [OF na(1) 1 Alt.prems(3-7)])
    then show ?thesis by (cases "rmatch a k st") simp_all
  next
    case 2
    have "rmatch b k st \<noteq> None"
      by (rule Alt.IH(2) [OF na(2) 2 Alt.prems(3-7)])
    then show ?thesis by (cases "rmatch a k st") simp_all
  qed
next
  case (Opt r)
  from Opt.prems(1) have na: "no_anchor r" by simp
  from Opt.prems(2) consider "w = []" | "w \<in> lang r" by auto
  then show ?case
  proof cases
    case 1
    have "k st \<noteq> None"
    proof (rule blindD [OF Opt.prems(4) _ _ Opt.prems(5)])
      show "pos st = pos st'" using Opt.prems(6) 1 by simp
      show "rest st = rest st'" using Opt.prems(3,7) 1 by simp
    qed
    then show ?thesis by (cases "rmatch r k st") simp_all
  next
    case 2
    have "rmatch r k st \<noteq> None"
      by (rule Opt.IH [OF na 2 Opt.prems(3-7)])
    then show ?thesis by (cases "rmatch r k st") simp_all
  qed
next
  case (Group n r)
  from Group.prems(1) have na: "no_anchor r" by simp
  from Group.prems(2) have wl: "w \<in> lang r" by simp
  let ?k = "\<lambda>a. k (a\<lparr>grp := (grp a)(n \<mapsto> take (pos a - pos st) (rest st))\<rparr>)"
  have bl: "blind ?k"
    unfolding blind_def
  proof (intro allI impI)
    fix a b :: mstate assume "pos a = pos b \<and> rest a = rest b"
    then show "(?k a = None) = (?k b = None)"
      using Group.prems(4) [unfolded blind_def, rule_format,
          of "a\<lparr>grp := (grp a)(n \<mapsto> take (pos a - pos st) (rest st))\<rparr>"
             "b\<lparr>grp := (grp b)(n \<mapsto> take (pos b - pos st) (rest st))\<rparr>"]
      by simp
  qed
  have acc: "?k st' \<noteq> None"
    by (rule blindD [OF Group.prems(4) _ _ Group.prems(5)]) simp_all
  have "rmatch r ?k st \<noteq> None"
    by (rule Group.IH [OF na wl Group.prems(3) bl acc Group.prems(6,7)])
  then show ?case by simp
qed

lemma reach_Seq:
  assumes "reach a st st1" and "reach b st1 st2"
  shows "reach (Seq a b) st st2"
proof -
  from assms(1) obtain w1 where w1: "rest st = w1 @ rest st1" "pos st1 = pos st + length w1"
    "w1 \<in> lang a" by (auto simp: reach_def)
  from assms(2) obtain w2 where w2: "rest st1 = w2 @ rest st2" "pos st2 = pos st1 + length w2"
    "w2 \<in> lang b" by (auto simp: reach_def)
  have 1: "\<exists>w. rest st = w @ rest st2 \<and> pos st2 = pos st + length w \<and> w \<in> lang (Seq a b)"
    using w1 w2 by (intro exI [of _ "w1 @ w2"]) auto
  have 2: "grp st2 n = grp st n \<or> (\<exists>u. grp st2 n = Some u \<and> u \<in> glang (Seq a b) n)" for n
  proof -
    from assms(1) have "grp st1 n = grp st n \<or> (\<exists>u. grp st1 n = Some u \<and> u \<in> glang a n)"
      by (simp add: reach_def)
    moreover from assms(2)
    have "grp st2 n = grp st1 n \<or> (\<exists>u. grp st2 n = Some u \<and> u \<in> glang b n)"
      by (simp add: reach_def)
    ultimately show ?thesis by auto
  qed
  have 3: "grp st2 n \<noteq> None" if "n \<in> must (Seq a b)" for n
  proof -
    from that consider "n \<in> must a" | "n \<in> must b" by auto
    then show ?thesis
    proof cases
      case 1
      with assms(1) have "grp st1 n \<noteq> None" by (simp add: reach_def)
      moreover from assms(2) have "grp st2 n = grp st1 n \<or> (\<exists>u. grp st2 n = Some u)"
        by (auto simp: reach_def)
      ultimately show ?thesis by auto
    next
      case 2
      with assms(2) show ?thesis by (simp add: reach_def)
    qed
  qed
  show ?thesis unfolding reach_def using 1 2 3 by blast
qed

lemma rmatch_sound_eol:
  "eol_last r \<Longrightarrow> rmatch r k st = Some res \<Longrightarrow>
     \<exists>st'. k st' = Some res \<and> reach r st st' \<and> (rest st' = [] \<or> rest st' = [CHR 0x0A])"
proof (induction r arbitrary: k st)
  case Eol
  from Eol.prems(2) have "k st = Some res" "rest st = [] \<or> rest st = [CHR 0x0A]"
    by (simp_all split: if_splits)
  moreover have "reach Eol st st" by (simp add: reach_def)
  ultimately show ?case by blast
next
  case (Seq a b)
  from Seq.prems(1) have eb: "eol_last b" by simp
  from Seq.prems(2) have "rmatch a (rmatch b k) st = Some res" by simp
  from rmatch_sound [OF this] obtain st1 where
    1: "rmatch b k st1 = Some res" "reach a st st1" by blast
  from Seq.IH(2) [OF eb 1(1)] obtain st2 where
    2: "k st2 = Some res" "reach b st1 st2" "rest st2 = [] \<or> rest st2 = [CHR 0x0A]" by blast
  from reach_Seq [OF 1(2) 2(2)] 2(1,3) show ?case by blast
qed simp_all

lemma rmatch_complete_eol:
  assumes "eol_last r" and "w \<in> lang r" and "rest st = w @ z"
    and "z = [] \<or> z = [CHR 0x0A]" and "blind k"
    and "k st' \<noteq> None" and "pos st' = pos st + length w" and "rest st' = z"
  shows "rmatch r k st \<noteq> None"
  using assms
proof (induction r arbitrary: k st w)
  case Eol
  from Eol.prems(2) have w: "w = []" by simp
  have "k st \<noteq> None"
  proof (rule blindD [OF Eol.prems(5) _ _ Eol.prems(6)])
    show "pos st = pos st'" using Eol.prems(7) w by simp
    show "rest st = rest st'" using Eol.prems(3,8) w by simp
  qed
  moreover from Eol.prems(3,4) w have "rest st = [] \<or> rest st = [CHR 0x0A]" by simp
  ultimately show ?case by simp
next
  case (Seq a b)
  from Seq.prems(1) have na: "no_anchor a" and eb: "eol_last b" by simp_all
  from Seq.prems(2) obtain u v where uv: "w = u @ v" "u \<in> lang a" "v \<in> lang b" by auto
  let ?st1 = "st\<lparr>pos := pos st + length u, rest := v @ z\<rparr>"
  have p1: "pos st' = pos ?st1 + length v" using Seq.prems(7) uv(1) by simp
  have r1: "rest ?st1 = v @ z" by simp
  have b: "rmatch b k ?st1 \<noteq> None"
    by (rule Seq.IH(2) [OF eb uv(3) r1 Seq.prems(4) Seq.prems(5) Seq.prems(6) p1 Seq.prems(8)])
  have r0: "rest st = u @ (v @ z)" using Seq.prems(3) uv(1) by simp
  have p0: "pos ?st1 = pos st + length u" by simp
  have "rmatch a (rmatch b k) st \<noteq> None"
    by (rule rmatch_complete [OF na uv(2) r0 blind_rmatch [OF Seq.prems(5)] b p0 r1])
  then show ?case by simp
qed simp_all

lemma re_match_lang:
  assumes "p = Seq Bol T" and "eol_last T" and "re_match p s = Some m"
  shows "\<exists>t. (s = t \<or> s = t @ [CHR 0x0A]) \<and> t \<in> lang p"
proof -
  let ?st = "\<lparr>pos = 0, rest = s, grp = (\<lambda>_. None)\<rparr>"
  from assms(1,3) obtain res where "rmatch T Some ?st = Some res"
    by (auto simp: re_match_def)
  from rmatch_sound_eol [OF assms(2) this] obtain st' where
    r: "reach T ?st st'" and e: "rest st' = [] \<or> rest st' = [CHR 0x0A]" by blast
  from r obtain w where w: "s = w @ rest st'" "w \<in> lang T" by (auto simp: reach_def)
  from w(2) assms(1) have "w \<in> lang p" by simp
  with w(1) e show ?thesis by auto
qed

lemma lang_re_match:
  assumes "p = Seq Bol T" and "eol_last T" and "t \<in> lang p"
    and "s = t \<or> s = t @ [CHR 0x0A]"
  shows "re_match p s \<noteq> None"
proof -
  let ?st = "\<lparr>pos = 0, rest = s, grp = (\<lambda>_. None)\<rparr>"
  from assms(4) obtain z where z: "s = t @ z" "z = [] \<or> z = [CHR 0x0A]" by auto
  let ?st' = "\<lparr>pos = length t, rest = z, grp = (\<lambda>_. None)\<rparr>"
  from assms(1,3) have tl: "t \<in> lang T" by simp
  have "rmatch T Some ?st \<noteq> None"
    by (rule rmatch_complete_eol [OF assms(2) tl _ z(2) blind_Some, where st' = ?st'])
      (simp_all add: z(1))
  with assms(1) show ?thesis by (simp add: re_match_def)
qed

lemma lang_full_match:
  assumes "p = Seq Bol T" and "eol_last T"
  shows "(t \<in> lang p) = full_match p t"
proof
  let ?k = "\<lambda>st. if rest st = [] then Some st else None"
  let ?st = "\<lparr>pos = 0, rest = t, grp = (\<lambda>_. None)\<rparr>"
  have bl: "blind ?k" by (simp add: blind_def)
  {
    assume "t \<in> lang p"
    with assms(1) have tl: "t \<in> lang T" by simp
    let ?st' = "\<lparr>pos = length t, rest = [], grp = (\<lambda>_. None)\<rparr>"
    have "rmatch T ?k ?st \<noteq> None"
      by (rule rmatch_complete_eol [OF assms(2) tl _ _ bl, where st' = ?st' and z = "[]"])
        simp_all
    with assms(1) show "full_match p t" by (simp add: full_match_def)
  }
  {
    assume "full_match p t"
    then obtain res where "rmatch p ?k ?st = Some res" by (auto simp: full_match_def)
    from rmatch_sound [OF this] obtain st' where k: "?k st' = Some res" and r: "reach p ?st st'"
      by blast
    from k have "rest st' = []" by (simp split: if_splits)
    with r show "t \<in> lang p" by (auto simp: reach_def)
  }
qed

lemma db_pattern_form: "\<exists>T. db_pattern = Seq Bol T \<and> eol_last T"
  by (simp add: db_pattern_def Str_def Plus_def)

lemma flex_pattern_form: "\<exists>T. flex_pattern = Seq Bol T \<and> eol_last T"
  by (simp add: flex_pattern_def number_def Str_def Plus_def)

lemma lang_db_iff: "(t \<in> lang db_pattern) = full_match db_pattern t"
  using db_pattern_form lang_full_match by blast

lemma lang_flex_iff: "(t \<in> lang flex_pattern) = full_match flex_pattern t"
  using flex_pattern_form lang_full_match by blast

lemma re_match_db_lang:
  "re_match db_pattern s = Some m \<Longrightarrow> \<exists>t. (s = t \<or> s = t @ [CHR 0x0A]) \<and> t \<in> lang db_pattern"
  using db_pattern_form re_match_lang by blast

lemma re_match_flex_lang:
  "re_match flex_pattern s = Some m \<Longrightarrow> \<exists>t. (s = t \<or> s = t @ [CHR 0x0A]) \<and> t \<in> lang flex_pattern"
  using flex_pattern_form re_match_lang by blast

subsection \<open>The signs of the flexible pattern\<close>




















lemma flex_groupdict_float:
  assumes "re_match flex_pattern s = Some m"
    and "groupdict flex_pattern (PInt 0) m k = Some v"
  shows "\<exists>x. py_float v = Inr x"
proof -
  from groupdict_Some [OF assms(2)]
  consider "v = PInt 0" | u where "m k = Some u" "v = PStr u" by auto
  then show ?thesis
  proof cases
    case 1
    then show ?thesis by simp
  next
    case 2
    from flex_capture [OF assms(1) 2(1)] 2(2) show ?thesis
      by (auto dest!: udecimal_float)
  qed
qed

lemma flex_kwargs_Some:
  assumes "re_match flex_pattern s = Some m"
  obtains a where "flex_kwargs s = Some a"
    and "float_items [Weeks, Days, Sign, Hours, Minutes, Seconds]
           (groupdict flex_pattern (PInt 0) m) = Inr a"
proof (cases "float_items [Weeks, Days, Sign, Hours, Minutes, Seconds]
           (groupdict flex_pattern (PInt 0) m)")
  case (Inl e)
  from float_items_Inl [OF Inl] obtain k v where
    "groupdict flex_pattern (PInt 0) m k = Some v" "py_float v = Inl e" by blast
  with flex_groupdict_float [OF assms this(1)] show ?thesis by simp
next
  case (Inr a)
  with assms that show ?thesis by (simp add: flex_kwargs_def)
qed

lemma flex_kwargs_value:
  assumes "re_match flex_pattern s = Some m" and "flex_kwargs s = Some a" and "k \<noteq> Sign"
  shows "a k = (case m k of None \<Rightarrow> Some 0
                | Some u \<Rightarrow> (case py_float (PStr u) of Inl e \<Rightarrow> None | Inr x \<Rightarrow> Some x))"
proof -
  from flex_kwargs_Some [OF assms(1)] assms(2) have
    f: "float_items [Weeks, Days, Sign, Hours, Minutes, Seconds]
           (groupdict flex_pattern (PInt 0) m) = Inr a" by auto
  have "k \<in> set (names_of flex_pattern)" using assms(3) names_of_flex by (cases k) simp_all
  then have g: "groupdict flex_pattern (PInt 0) m k
      = Some (case m k of None \<Rightarrow> PInt 0 | Some w \<Rightarrow> PStr w)"
    by (simp add: groupdict_def)
  have "k \<in> set [Weeks, Days, Sign, Hours, Minutes, Seconds]" by (cases k) simp_all
  with float_items_Inr [OF f, of k] g show ?thesis
    by (cases "m k") simp_all
qed

lemma parse_flex_kwargs:
  assumes "s \<noteq> []" and "re_match db_pattern s = None" and "flex_kwargs s = Some a"
  shows "parse s = timedelta_new a"
proof (cases "re_match flex_pattern s")
  case None
  with assms(3) show ?thesis by (simp add: flex_kwargs_def)
next
  case (Some m)
  show ?thesis
  proof (cases "float_items [Weeks, Days, Sign, Hours, Minutes, Seconds]
           (groupdict flex_pattern (PInt 0) m)")
    case (Inl e)
    with Some assms(3) show ?thesis by (simp add: flex_kwargs_def)
  next
    case (Inr b)
    with Some assms(3) have "b = a" by (simp add: flex_kwargs_def)
    with Inr Some assms(1,2) show ?thesis
      by (simp add: parse_def parse_with_def to_timedelta_def)
  qed
qed

lemma flex_kwargs_sign:
  assumes "re_match flex_pattern s = Some m" and "flex_kwargs s = Some a"
  shows "a Sign = None"
proof -
  from flex_kwargs_Some [OF assms(1)] assms(2) have
    f: "float_items [Weeks, Days, Sign, Hours, Minutes, Seconds]
           (groupdict flex_pattern (PInt 0) m) = Inr a" by auto
  have "groupdict flex_pattern (PInt 0) m Sign = None"
    by (simp add: groupdict_dom names_of_flex)
  with float_items_Inr [OF f, of Sign] show ?thesis by simp
qed
section \<open>The claims\<close>

subsection \<open>The examples of the docstring\<close>

lemma doctest_units:
  "parse ''2 days'' = Inr \<lparr>days = 2, seconds = 0, microseconds = 0\<rparr>"
  "parse ''1 hrs'' = Inr \<lparr>days = 0, seconds = 3600, microseconds = 0\<rparr>"
  "parse ''2 wks'' = Inr \<lparr>days = 14, seconds = 0, microseconds = 0\<rparr>"
  "parse ''1 mins'' = Inr \<lparr>days = 0, seconds = 60, microseconds = 0\<rparr>"
  "parse ''1 seconds'' = Inr \<lparr>days = 0, seconds = 1, microseconds = 0\<rparr>"
  "parse ''1.5 days'' = Inr \<lparr>days = 1, seconds = 43200, microseconds = 0\<rparr>"
  "parse ''.5 hours'' = Inr \<lparr>days = 0, seconds = 1800, microseconds = 0\<rparr>"
  "parse ''-1 day 0:00:01'' = Inr \<lparr>days = -1, seconds = 1, microseconds = 0\<rparr>"
  by code_simp+

subsection \<open>The empty string\<close>

text \<open>
  C5. The empty string fails with \<open>InvalidFormat\<close>, and the failure is decided before any
  pattern is tried: the result is the same whatever \<^verbatim>\<open>re.match\<close> would answer.
\<close>

theorem parse_empty:
  "parse [] = Inl (InvalidFormat []) \<and> (\<forall>mt. parse_with mt [] = Inl (InvalidFormat []))"
  by (simp add: parse_def parse_with_def)

text \<open>Without that test the flexible pattern would accept the empty string.\<close>

lemma flex_matches_empty: "captures flex_pattern [] = Some [None, None, None, None, None, None]"
  by code_simp

subsection \<open>Inputs that match neither pattern\<close>

text \<open>
  C6, as amended. An input fails with \<open>InvalidFormat\<close> when neither pattern matches it in
  full and neither matches it in full once a line feed that ends it is left off; so do a
  unit word without a number and the doubled abbreviations of the docstring, none of which
  matches a pattern in full.
\<close>

theorem parse_rejects_unmatched:
  "((\<forall>t. s = t \<or> s = t @ [CHR 0x0A] \<longrightarrow> t \<notin> lang db_pattern \<and> t \<notin> lang flex_pattern)
      \<longrightarrow> parse s = Inl (InvalidFormat s))
   \<and> '' hours'' \<notin> lang db_pattern \<and> '' hours'' \<notin> lang flex_pattern
   \<and> parse '' hours'' = Inl (InvalidFormat '' hours'')
   \<and> ''2 ws'' \<notin> lang db_pattern \<and> ''2 ws'' \<notin> lang flex_pattern
   \<and> parse ''2 ws'' = Inl (InvalidFormat ''2 ws'')
   \<and> ''2 ds'' \<notin> lang db_pattern \<and> ''2 ds'' \<notin> lang flex_pattern
   \<and> parse ''2 ds'' = Inl (InvalidFormat ''2 ds'')
   \<and> ''2 hs'' \<notin> lang db_pattern \<and> ''2 hs'' \<notin> lang flex_pattern
   \<and> parse ''2 hs'' = Inl (InvalidFormat ''2 hs'')
   \<and> ''2 ms'' \<notin> lang db_pattern \<and> ''2 ms'' \<notin> lang flex_pattern
   \<and> parse ''2 ms'' = Inl (InvalidFormat ''2 ms'')
   \<and> ''2 ss'' \<notin> lang db_pattern \<and> ''2 ss'' \<notin> lang flex_pattern
   \<and> parse ''2 ss'' = Inl (InvalidFormat ''2 ss'')"
proof -
  have gen: "(\<forall>t. s = t \<or> s = t @ [CHR 0x0A] \<longrightarrow> t \<notin> lang db_pattern \<and> t \<notin> lang flex_pattern)
      \<longrightarrow> parse s = Inl (InvalidFormat s)"
  proof
    assume h: "\<forall>t. s = t \<or> s = t @ [CHR 0x0A] \<longrightarrow> t \<notin> lang db_pattern \<and> t \<notin> lang flex_pattern"
    have "re_match db_pattern s = None"
    proof (cases "re_match db_pattern s")
      case (Some m)
      from re_match_db_lang [OF Some] h show ?thesis by blast
    qed simp
    moreover have "re_match flex_pattern s = None"
    proof (cases "re_match flex_pattern s")
      case (Some m)
      from re_match_flex_lang [OF Some] h show ?thesis by blast
    qed simp
    ultimately show "parse s = Inl (InvalidFormat s)"
      by (simp add: parse_def parse_with_def)
  qed
  have a: "\<not> full_match db_pattern '' hours''" "\<not> full_match flex_pattern '' hours''"
    "parse '' hours'' = Inl (InvalidFormat '' hours'')" by code_simp+
  have b: "\<not> full_match db_pattern ''2 ws''" "\<not> full_match flex_pattern ''2 ws''"
    "parse ''2 ws'' = Inl (InvalidFormat ''2 ws'')" by code_simp+
  have c: "\<not> full_match db_pattern ''2 ds''" "\<not> full_match flex_pattern ''2 ds''"
    "parse ''2 ds'' = Inl (InvalidFormat ''2 ds'')" by code_simp+
  have d: "\<not> full_match db_pattern ''2 hs''" "\<not> full_match flex_pattern ''2 hs''"
    "parse ''2 hs'' = Inl (InvalidFormat ''2 hs'')" by code_simp+
  have e: "\<not> full_match db_pattern ''2 ms''" "\<not> full_match flex_pattern ''2 ms''"
    "parse ''2 ms'' = Inl (InvalidFormat ''2 ms'')" by code_simp+
  have f: "\<not> full_match db_pattern ''2 ss''" "\<not> full_match flex_pattern ''2 ss''"
    "parse ''2 ss'' = Inl (InvalidFormat ''2 ss'')" by code_simp+
  show ?thesis
    using gen a b c d e f unfolding lang_db_iff lang_flex_iff by blast
qed

theorem parse_rejects_unmatched_witness:
  "''1 fortnight'' \<notin> lang db_pattern \<and> ''1 fortnight'' \<notin> lang flex_pattern
   \<and> parse ''1 fortnight'' = Inl (InvalidFormat ''1 fortnight'')"
proof -
  have nf: "\<not> full_match db_pattern ''1 fortnight''" "\<not> full_match flex_pattern ''1 fortnight''"
    by code_simp+
  have h: "\<forall>t. ''1 fortnight'' = t \<or> ''1 fortnight'' = t @ [CHR 0x0A]
        \<longrightarrow> t \<notin> lang db_pattern \<and> t \<notin> lang flex_pattern"
  proof (intro allI impI)
    fix t assume "''1 fortnight'' = t \<or> ''1 fortnight'' = t @ [CHR 0x0A]"
    moreover have "''1 fortnight'' \<noteq> t @ [CHR 0x0A]"
    proof
      assume "''1 fortnight'' = t @ [CHR 0x0A]"
      then have "last ''1 fortnight'' = CHR 0x0A" by (metis last_snoc)
      then show False by simp
    qed
    ultimately have "t = ''1 fortnight''" by simp
    with nf show "t \<notin> lang db_pattern \<and> t \<notin> lang flex_pattern"
      by (simp add: lang_db_iff lang_flex_iff)
  qed
  from parse_rejects_unmatched [of "''1 fortnight''"] h
  have "parse ''1 fortnight'' = Inl (InvalidFormat ''1 fortnight'')" by blast
  with nf show ?thesis by (simp add: lang_db_iff lang_flex_iff)
qed

text \<open>
  The line feed is needed: \<^verbatim>\<open>$\<close> also holds before a line feed that ends the input, so
  the first pattern accepts a clock time followed by a line feed, which no pattern matches
  in full.
\<close>

theorem parse_line_feed_counterexample:
  "''1:01'' @ [CHR 0x0A] \<notin> lang db_pattern \<and> ''1:01'' @ [CHR 0x0A] \<notin> lang flex_pattern
   \<and> parse (''1:01'' @ [CHR 0x0A]) = Inr \<lparr>days = 0, seconds = 3660, microseconds = 0\<rparr>"
proof -
  have "\<not> full_match db_pattern (''1:01'' @ [CHR 0x0A])" by code_simp
  moreover have "\<not> full_match flex_pattern (''1:01'' @ [CHR 0x0A])" by code_simp
  moreover have "parse (''1:01'' @ [CHR 0x0A])
      = Inr \<lparr>days = 0, seconds = 3660, microseconds = 0\<rparr>" by code_simp
  ultimately show ?thesis by (simp add: lang_db_iff lang_flex_iff)
qed

subsection \<open>The scenarios of the specification\<close>

text \<open>
  C3, as amended. The five scenarios give 86400, 3900, 15120, \<open>-90061\<close> and \<open>-420955\<close>
  seconds; the last two are the \<^verbatim>\<open>timedelta(-2, 82739)\<close> and \<^verbatim>\<open>timedelta(-5, 11045)\<close>
  of the docstring.
\<close>

theorem parse_scenarios:
  "result_seconds (parse ''1 day'') = Some 86400
   \<and> result_seconds (parse ''1 hour, 5 mins'') = Some 3900
   \<and> result_seconds (parse ''4.2 hours'') = Some 15120
   \<and> parse ''-1 day, -1:01:01'' = Inr \<lparr>days = -2, seconds = 82739, microseconds = 0\<rparr>
   \<and> result_seconds (parse ''-1 day, -1:01:01'') = Some (-90061)
   \<and> parse ''-1 weeks, 2 days, -3 hours, 4 minutes, -5 seconds''
       = Inr \<lparr>days = -5, seconds = 11045, microseconds = 0\<rparr>
   \<and> result_seconds (parse ''-1 weeks, 2 days, -3 hours, 4 minutes, -5 seconds'')
       = Some (-420955)"
proof -
  have "result_seconds (parse ''1 day'') = Some 86400" by code_simp
  moreover have "result_seconds (parse ''1 hour, 5 mins'') = Some 3900" by code_simp
  moreover have "result_seconds (parse ''4.2 hours'') = Some 15120" by code_simp
  moreover have a: "parse ''-1 day, -1:01:01''
      = Inr \<lparr>days = -2, seconds = 82739, microseconds = 0\<rparr>" by code_simp
  moreover have b: "parse ''-1 weeks, 2 days, -3 hours, 4 minutes, -5 seconds''
      = Inr \<lparr>days = -5, seconds = 11045, microseconds = 0\<rparr>" by code_simp
  moreover have "result_seconds (parse ''-1 day, -1:01:01'') = Some (-90061)"
    by (simp add: a result_seconds_def total_seconds_def)
  moreover have "result_seconds (parse ''-1 weeks, 2 days, -3 hours, 4 minutes, -5 seconds'')
      = Some (-420955)"
    by (simp add: b result_seconds_def total_seconds_def)
  ultimately show ?thesis by blast
qed

text \<open>The totals that the specification states for the last two scenarios are not reached.\<close>

theorem parse_scenarios_counterexample:
  "result_seconds (parse ''-1 day, -1:01:01'') \<noteq> Some (-172861)
   \<and> result_seconds (parse ''-1 weeks, 2 days, -3 hours, 4 minutes, -5 seconds'')
       \<noteq> Some (-432955)"
proof -
  have a: "parse ''-1 day, -1:01:01''
      = Inr \<lparr>days = -2, seconds = 82739, microseconds = 0\<rparr>" by code_simp
  have b: "parse ''-1 weeks, 2 days, -3 hours, 4 minutes, -5 seconds''
      = Inr \<lparr>days = -5, seconds = 11045, microseconds = 0\<rparr>" by code_simp
  show ?thesis by (simp add: a b result_seconds_def total_seconds_def)
qed

subsection \<open>A signed clock time without seconds\<close>

text \<open>
  C4. With a \<^verbatim>\<open>-\<close> before the clock time and no seconds, the group \<^verbatim>\<open>seconds\<close> is the
  integer 0 of \<^verbatim>\<open>groupdict(0)\<close>, and \<^verbatim>\<open>'-' + 0\<close> raises: \<^verbatim>\<open>parse\<close> does not return.
\<close>

theorem parse_signed_clock_without_seconds:
  "captures db_pattern ''-1:01'' = Some [None, None, Some ''-'', Some ''1'', Some ''01'', None]
   \<and> parse ''-1:01'' = Inl ConcatTypeError"
proof -
  have "captures db_pattern ''-1:01''
      = Some [None, None, Some ''-'', Some ''1'', Some ''01'', None]" by code_simp
  moreover have "parse ''-1:01'' = Inl ConcatTypeError" by code_simp
  ultimately show ?thesis by blast
qed

subsection \<open>A match without any field\<close>

text \<open>
  C9, as amended. When the flexible pattern matches and no group takes part, every
  keyword is the default 0 and \<^verbatim>\<open>parse\<close> returns the zero duration.
\<close>

theorem parse_no_field_zero:
  assumes "s \<noteq> []" and "re_match db_pattern s = None"
    and "re_match flex_pattern s = Some m" and "\<forall>k. m k = None"
  shows "parse s = Inr \<lparr>days = 0, seconds = 0, microseconds = 0\<rparr>"
  using assms
  by (simp add: parse_def parse_with_def to_timedelta_def groupdict_def names_of_flex
      timedelta_new_def weighted_seconds_def kw_def py_round_def)

theorem parse_no_field_zero_witness:
  "parse '', '' = Inr \<lparr>days = 0, seconds = 0, microseconds = 0\<rparr>"
proof -
  have "captures flex_pattern '', '' = Some [None, None, None, None, None, None]"
    by code_simp
  then obtain m where m: "re_match flex_pattern '', '' = Some m"
    and f: "m Weeks = None" "m Days = None" "m Sign = None" "m Hours = None"
      "m Minutes = None" "m Seconds = None"
    by (auto simp: captures_def)
  have all: "\<forall>k. m k = None"
  proof
    fix k show "m k = None" using f by (cases k) simp_all
  qed
  have db: "re_match db_pattern '', '' = None" by code_simp
  have ne: "'', '' \<noteq> []" by simp
  from parse_no_field_zero [OF ne db m all] show ?thesis .
qed

theorem filler_only_counterexample:
  "captures flex_pattern '' , ,'' = Some [None, None, None, None, None, None]
   \<and> parse '' , ,'' \<noteq> Inl (InvalidFormat '' , ,'')"
proof -
  have "captures flex_pattern '' , ,'' = Some [None, None, None, None, None, None]"
    by code_simp
  moreover have "parse '' , ,'' = Inr \<lparr>days = 0, seconds = 0, microseconds = 0\<rparr>"
    by code_simp
  ultimately show ?thesis by simp
qed

subsection \<open>The sign of the clock time\<close>

text \<open>
  C2. A \<^verbatim>\<open>-\<close> before the clock time is meant for hours, minutes and seconds together,
  and where the seconds are written the three are negated (\<open>db_sign_distributes\<close>). Where
  they are not, the loop that distributes the sign raises and nothing is negated: this is
  the defect of C4, here after a day count.
\<close>

theorem parse_signed_clock_after_days:
  "captures db_pattern ''1 day, -2:30''
     = Some [None, Some ''1'', Some ''-'', Some ''2'', Some ''30'', None]
   \<and> parse ''1 day, -2:30'' = Inl ConcatTypeError
   \<and> parse ''1 day, -2:30:00'' = Inr \<lparr>days = 0, seconds = 77400, microseconds = 0\<rparr>"
proof -
  have "captures db_pattern ''1 day, -2:30''
      = Some [None, Some ''1'', Some ''-'', Some ''2'', Some ''30'', None]" by code_simp
  moreover have "parse ''1 day, -2:30'' = Inl ConcatTypeError" by code_simp
  moreover have "parse ''1 day, -2:30:00''
      = Inr \<lparr>days = 0, seconds = 77400, microseconds = 0\<rparr>" by code_simp
  ultimately show ?thesis by blast
qed

subsection \<open>The kinds of failure\<close>

text \<open>
  C7, as amended. Apart from the inputs of C4 (the first pattern matches with the sign
  \<^verbatim>\<open>-\<close> and without seconds), a failure of \<^verbatim>\<open>parse\<close> is \<open>InvalidFormat\<close> with the
  input as it was given, or the \<^verbatim>\<open>OverflowError\<close> of the constructor. In particular
  \<^verbatim>\<open>float\<close> never fails on what a group has captured.
\<close>

theorem parse_errors:
  assumes "parse s = Inl e"
    and "\<not> (\<exists>m. re_match db_pattern s = Some m \<and> m Sign = Some ''-'' \<and> m Seconds = None)"
  shows "e = InvalidFormat s \<or> e = OverflowError"
  using parse_error_cases [OF assms(1)] assms(2) by blast

theorem parse_errors_witness:
  "parse ''1e3 days'' = Inl (InvalidFormat ''1e3 days'')
   \<and> re_match db_pattern ''1e3 days'' = None"
proof -
  have a: "parse ''1e3 days'' = Inl (InvalidFormat ''1e3 days'')" by code_simp
  have b: "re_match db_pattern ''1e3 days'' = None" by code_simp
  then have c: "\<not> (\<exists>m. re_match db_pattern ''1e3 days'' = Some m \<and> m Sign = Some ''-''
      \<and> m Seconds = None)" by simp
  from parse_errors [OF a c] a b show ?thesis by simp
qed

text \<open>An error that is not \<open>InvalidFormat\<close>: a billion days are beyond the constructor.\<close>

theorem parse_overflow_counterexample:
  "parse ''1000000000 days'' = Inl OverflowError
   \<and> parse ''1000000000 days'' \<noteq> Inl (InvalidFormat ''1000000000 days'')"
proof -
  have "parse ''1000000000 days'' = Inl OverflowError" by code_simp
  then show ?thesis by simp
qed

subsection \<open>Clock fields without range checks\<close>

text \<open>
  C10, as amended. For digits \<open>h\<close>, \<open>mi\<close> and, where present, \<open>sec\<close>, the input
  \<^verbatim>\<open>h:mi\<close> or \<^verbatim>\<open>h:mi:sec\<close> parses to \<open>n = h * 3600 + mi * 60 + sec\<close> seconds whatever
  the three numbers are, as long as \<open>n\<close> is less than 1000000000 days; from there on the
  constructor raises \<^verbatim>\<open>OverflowError\<close>.
\<close>

theorem clock_fields_unchecked:
  assumes "h \<noteq> []" and "list_all is_digit h" and "mi \<noteq> []" and "list_all is_digit mi"
    and "list_all is_digit sec"
    and "s = h @ CHR '':'' # mi @ (if sec = [] then [] else CHR '':'' # sec)"
    and "n = digits_val h * 3600 + digits_val mi * 60 + digits_val sec"
  shows "(n < 86400000000000 \<longrightarrow>
            parse s = Inr \<lparr>days = n div 86400, seconds = n mod 86400, microseconds = 0\<rparr>
            \<and> result_seconds (parse s) = Some (of_int n))
       \<and> (86400000000000 \<le> n \<longrightarrow> parse s = Inl OverflowError)"
proof -
  have n0: "0 \<le> n"
    using digits_val_nonneg [OF assms(2)] digits_val_nonneg [OF assms(4)]
      digits_val_nonneg [OF assms(5)] assms(7) by simp
  let ?a = "[Seconds \<mapsto> of_int (digits_val sec), Minutes \<mapsto> of_int (digits_val mi),
             Hours \<mapsto> of_int (digits_val h), Days \<mapsto> (0::rat)]"
  have p: "parse s = timedelta_new ?a"
  proof (cases "sec = []")
    case True
    have "re_match db_pattern s = Some [Sign \<mapsto> [], Hours \<mapsto> h, Minutes \<mapsto> mi]"
      using re_match_db_hm [OF assms(1-4)] assms(6) True by simp
    then show ?thesis
      unfolding parse_def parse_with_def using assms(1-4,6) True
      by (simp add: groupdict_def names_of_db to_timedelta_def float_lit_digits digits_val_def)
  next
    case False
    have "re_match db_pattern s
        = Some [Sign \<mapsto> [], Hours \<mapsto> h, Minutes \<mapsto> mi, Seconds \<mapsto> sec]"
      using re_match_db_hms [OF assms(1-4) False assms(5)] assms(6) False by simp
    then show ?thesis
      unfolding parse_def parse_with_def using assms(1-6) False
      by (simp add: groupdict_def names_of_db to_timedelta_def float_lit_digits)
  qed
  have w: "weighted_seconds ?a = of_int n"
    by (simp add: weighted_seconds_def kw_def assms(7))
  have t: "timedelta_new ?a =
     (if \<bar>n div 86400\<bar> > 999999999 then Inl OverflowError
      else Inr \<lparr>days = n div 86400, seconds = n mod 86400, microseconds = 0\<rparr>)"
    by (rule timedelta_new_int [OF _ w]) simp
  have d: "\<bar>n div 86400\<bar> > 999999999 \<longleftrightarrow> 86400000000000 \<le> n"
    using n0 by (simp add: pos_imp_zdiv_nonneg_iff) linarith
  have ts: "total_seconds \<lparr>days = n div 86400, seconds = n mod 86400, microseconds = 0\<rparr>
      = of_int n"
    by (simp add: total_seconds_def)
  show ?thesis using p t d ts by (auto simp: result_seconds_def)
qed

theorem clock_fields_unchecked_witness:
  "parse ''0:99:99'' = Inr \<lparr>days = 0, seconds = 6039, microseconds = 0\<rparr>
   \<and> result_seconds (parse ''0:99:99'') = Some 6039
   \<and> parse ''30:00'' = Inr \<lparr>days = 1, seconds = 21600, microseconds = 0\<rparr>"
proof -
  have dv: "digits_val ''0'' = 0" "digits_val ''99'' = 99" "digits_val ''30'' = 30"
    "digits_val ''00'' = 0" "digits_val [] = 0"
    by (simp_all add: digits_val_def digit_val_def)
  have dg: "list_all is_digit ''0''" "list_all is_digit ''99''" "list_all is_digit ''30''"
    "list_all is_digit ''00''" "list_all is_digit []"
    by (simp_all add: is_digit_def)
  have a: "(6039::int) < 86400000000000 \<longrightarrow>
      parse ''0:99:99'' = Inr \<lparr>days = 6039 div 86400, seconds = 6039 mod 86400, microseconds = 0\<rparr>
      \<and> result_seconds (parse ''0:99:99'') = Some (of_int 6039)"
    using clock_fields_unchecked [of "''0''" "''99''" "''99''" "''0:99:99''" 6039] dv dg
    by (simp add: result_seconds_def total_seconds_def)
  have b: "(108000::int) < 86400000000000 \<longrightarrow>
      parse ''30:00'' = Inr \<lparr>days = 108000 div 86400, seconds = 108000 mod 86400, microseconds = 0\<rparr>
      \<and> result_seconds (parse ''30:00'') = Some (of_int 108000)"
    using clock_fields_unchecked [of "''30''" "''00''" "[]" "''30:00''" 108000] dv dg
    by (simp add: result_seconds_def total_seconds_def)
  from a b show ?thesis by (simp add: result_seconds_def total_seconds_def)
qed

text \<open>Beyond the range of the constructor a clock time of digits does not parse.\<close>

theorem clock_overflow_counterexample:
  "parse ''24000000000:00'' = Inl OverflowError"
  by code_simp

subsection \<open>The signs of the flexible format\<close>




subsection \<open>A component of magnitude zero\<close>

text \<open>
  C8, as amended. A group that took no part counts as 0, as a group does that captured a
  literal of value 0: two inputs of the flexible format, of which one has a component of
  magnitude zero that the other lacks, parse to the same duration when the other groups
  capture the same texts in both.
\<close>

theorem zero_component_same_duration:
  assumes "s \<noteq> []" and "s' \<noteq> []"
    and "re_match db_pattern s = None" and "re_match db_pattern s' = None"
    and "re_match flex_pattern s = Some m" and "re_match flex_pattern s' = Some m'"
    and "m k = None" and "m' k = Some z" and "float_lit z = Some 0"
    and "\<forall>j. j \<noteq> k \<longrightarrow> m' j = m j"
  shows "parse s' = parse s"
proof -
  from flex_kwargs_Some [OF assms(5)] obtain a where a: "flex_kwargs s = Some a" by blast
  from flex_kwargs_Some [OF assms(6)] obtain a' where a': "flex_kwargs s' = Some a'" by blast
  have "a' j = a j" for j
  proof (cases "j = Sign")
    case True
    with flex_kwargs_sign [OF assms(5) a] flex_kwargs_sign [OF assms(6) a'] show ?thesis
      by simp
  next
    case False
    note v = flex_kwargs_value [OF assms(5) a False] flex_kwargs_value [OF assms(6) a' False]
    show ?thesis
    proof (cases "j = k")
      case True
      with v assms(7,8,9) show ?thesis by simp
    next
      case False
      with assms(10) have "m' j = m j" by simp
      with v show ?thesis by simp
    qed
  qed
  then have "a' = a" by (rule ext)
  with parse_flex_kwargs [OF assms(1,3) a] parse_flex_kwargs [OF assms(2,4) a']
  show ?thesis by simp
qed

theorem zero_component_same_duration_witness:
  "parse ''0 days, 1 hour'' = parse ''1 hour''
   \<and> parse ''1 hour'' = Inr \<lparr>days = 0, seconds = 3600, microseconds = 0\<rparr>"
proof -
  have "captures flex_pattern ''1 hour'' = Some [None, None, None, Some ''1'', None, None]"
    by code_simp
  then obtain m where m: "re_match flex_pattern ''1 hour'' = Some m"
    and mv: "m Weeks = None" "m Days = None" "m Sign = None" "m Hours = Some ''1''"
      "m Minutes = None" "m Seconds = None"
    by (auto simp: captures_def)
  have "captures flex_pattern ''0 days, 1 hour''
      = Some [None, Some ''0'', None, Some ''1'', None, None]" by code_simp
  then obtain m' where m': "re_match flex_pattern ''0 days, 1 hour'' = Some m'"
    and mv': "m' Weeks = None" "m' Days = Some ''0''" "m' Sign = None" "m' Hours = Some ''1''"
      "m' Minutes = None" "m' Seconds = None"
    by (auto simp: captures_def)
  have same: "\<forall>j. j \<noteq> Days \<longrightarrow> m' j = m j"
  proof (intro allI impI)
    fix j :: gname assume "j \<noteq> Days"
    then show "m' j = m j" using mv mv' by (cases j) simp_all
  qed
  have db: "re_match db_pattern ''1 hour'' = None" "re_match db_pattern ''0 days, 1 hour'' = None"
    by code_simp+
  have z: "float_lit ''0'' = Some 0" by code_simp
  have ne: "''1 hour'' \<noteq> []" "''0 days, 1 hour'' \<noteq> []" by simp_all
  have "parse ''0 days, 1 hour'' = parse ''1 hour''"
    by (rule zero_component_same_duration [OF ne db m m' mv(2) mv'(2) z same])
  moreover have "parse ''1 hour'' = Inr \<lparr>days = 0, seconds = 3600, microseconds = 0\<rparr>"
    by code_simp
  ultimately show ?thesis by simp
qed

text \<open>
  The condition on the other groups is needed: in front of a component with a sign, the
  added component turns the sign into filler.
\<close>

theorem zero_component_counterexample:
  "parse ''-3 hours'' = Inr \<lparr>days = -1, seconds = 75600, microseconds = 0\<rparr>
   \<and> parse ''0 days, -3 hours'' = Inr \<lparr>days = 0, seconds = 10800, microseconds = 0\<rparr>
   \<and> parse ''0 days, -3 hours'' \<noteq> parse ''-3 hours''"
proof -
  have a: "parse ''-3 hours'' = Inr \<lparr>days = -1, seconds = 75600, microseconds = 0\<rparr>"
    by code_simp
  have b: "parse ''0 days, -3 hours'' = Inr \<lparr>days = 0, seconds = 10800, microseconds = 0\<rparr>"
    by code_simp
  show ?thesis by (simp add: a b)
qed
end
